theory Spec2Isabelle
  imports Main "HOL-Library.Word" "HOL-Library.Signed_Division"
begin

unbundle bit_operations_syntax

section \<open>Data model of main.c\<close>

text \<open>
  The target is an MSP430G2553: \<open>int\<close> and \<open>unsigned int\<close> are 16 bits wide,
  \<open>long\<close> is 32 bits wide, \<open>char\<close> is 8 bits wide. Unsigned variables are
  words of that width (arithmetic wraps); the signed counter \<open>ncap\<close> is a 16-bit
  word read through \<open>sint\<close>. The loop variables \<open>rsel\<close>, \<open>dco\<close> and
  \<open>mod\<close> only ever hold values in 0..32 and are decremented only behind a test for
  non-zero, so they are natural numbers (\<open>mod\<close> is spelled \<open>modv\<close>, the name
  being taken in HOL).

  LED and pin output, the delay loops and the timer and watchdog set-up registers have
  no influence on the control flow and are left out of the state.
\<close>

type_synonym config = "nat \<times> nat \<times> nat"

record mcu =
  DCOCTL :: "8 word"
  BCSCTL1 :: "8 word"
  FCTL1 :: "16 word"
  FCTL2 :: "16 word"
  FCTL3 :: "16 word"
  GIE :: bool
  flash :: "16 word \<Rightarrow> 8 word"
  CalDCO :: "8 word list"
  CalBC1 :: "8 word list"
  LastCapture :: "16 word"
  LastDifference :: "16 word"
  AveragedDifference :: "16 word"
  ncap :: "16 word"
  rsel :: nat
  dco :: nat
  modv :: nat
  Mean :: "32 word"
  applied :: "config list"

text \<open>
  \<open>flash\<close> is the information memory by address. \<open>applied\<close> is a log, not a
  variable of the program: the configurations passed to \<open>setDCO\<close> so far, oldest
  first. Its length numbers the measurement sessions.

  What the hardware does is a parameter: for the \<open>k\<close>-th session and the
  configuration programmed, the values the timer latches in \<open>TACCR0\<close> at the
  successive capture interrupts from the moment the session is armed (a finite list:
  the captures stop when the reference clock or the timer stops); the oscillator-fault
  flag \<open>LFXT1OF\<close> of \<open>BCSCTL3\<close> as read at the \<open>k\<close>-th poll of
  \<open>startClk32\<close> and before the scan of target \<open>i\<close> in \<open>main\<close>; and the
  indeterminate initial content of the local \<open>prev\<close> of \<open>searchGoal\<close>.
\<close>

record environment =
  captures :: "nat \<Rightarrow> config \<Rightarrow> 16 word list"
  lfxt1of_start :: "nat \<Rightarrow> bool"
  lfxt1of_scan :: "nat \<Rightarrow> bool"
  prev_init :: "16 word"

subsection \<open>Constants\<close>

definition MAX_ERROR :: int where "MAX_ERROR = 5"
definition MAX_CYCLES :: nat where "MAX_CYCLES = 10"
definition NCAP :: int where "NCAP = 50"
definition NFREQ :: nat where "NFREQ = 9"

definition GoalN :: "16 word list" where
  "GoalN = [977, 1953, 3906, 7813, 11719, 15625, 19531, 23438, 31250]"

text \<open>The positions of NewDCOCal.h, in the order of \<open>CalPos\<close>.\<close>

definition CalPos :: "16 word list" where
  "CalPos = [0x10AE, 0x10BE, 0x10BC, 0x10BA, 0x10B8, 0x10B6, 0x10B4, 0x10B2, 0x10B0]"

text \<open>
  Bit masks and the addresses of the factory calibration for 1 MHz come from the device
  header msp430g2553.h, which is not among the sources; the values are the ones of that
  header.
\<close>

definition XT2OFF :: "8 word" where "XT2OFF = 0x80"
definition DCO0 :: "8 word" where "DCO0 = 0x20"
definition FWKEY :: "16 word" where "FWKEY = 0xA500"
definition FSSEL_1 :: "16 word" where "FSSEL_1 = 0x0040"
definition FN1 :: "16 word" where "FN1 = 0x0002"
definition LOCK :: "16 word" where "LOCK = 0x0010"
definition WRT :: "16 word" where "WRT = 0x0040"
definition ERASE :: "16 word" where "ERASE = 0x0002"

definition CALDCO_1MHZ :: "mcu \<Rightarrow> 8 word" where
  "CALDCO_1MHZ s = flash s 0x10FE"

definition CALBC1_1MHZ :: "mcu \<Rightarrow> 8 word" where
  "CALBC1_1MHZ s = flash s 0x10FF"

section \<open>Measurement: the capture interrupt and setDCO\<close>

text \<open>
  \<open>CAPTURE0_ISR\<close>, one run of the handler, \<open>taccr0\<close> being the value latched in
  \<open>TACCR0\<close>. The comparisons on \<open>ncap\<close> are signed.
\<close>

definition CAPTURE0_ISR :: "16 word \<Rightarrow> mcu \<Rightarrow> mcu" where
  "CAPTURE0_ISR taccr0 s =
    (let s1 = s\<lparr>LastDifference := taccr0 - LastCapture s\<rparr>;
         s2 = s1\<lparr>LastCapture := taccr0\<rparr>;
         s3 = (if 0 \<le> sint (ncap s2) then
                 (if sint (ncap s2) < NCAP
                  then s2\<lparr>Mean := Mean s2 + ucast (LastDifference s2)\<rparr> else s2)
               else s2)
     in if sint (ncap s3) < 10000 then s3\<lparr>ncap := ncap s3 + 1\<rparr> else s3)"

text \<open>
  \<open>while (ncap<NCAP) {};\<close> with interrupts enabled: the handler runs once per
  capture until the test fails. When the captures run out first, the loop never ends:
  \<open>None\<close>.
\<close>

fun wait_ncap :: "16 word list \<Rightarrow> mcu \<Rightarrow> mcu option" where
  "wait_ncap [] s = (if sint (ncap s) < NCAP then None else Some s)"
| "wait_ncap (c # cs) s =
    (if sint (ncap s) < NCAP then wait_ncap cs (CAPTURE0_ISR c s) else Some s)"

definition setDCO :: "environment \<Rightarrow> nat \<Rightarrow> nat \<Rightarrow> nat \<Rightarrow> mcu \<Rightarrow> mcu option" where
  "setDCO env r d m s =
    (let s1 = s\<lparr>BCSCTL1 := XT2OFF + of_nat r\<rparr>;
         s2 = s1\<lparr>DCOCTL := of_nat d * DCO0 + of_nat m\<rparr>;
         s3 = s2\<lparr>GIE := False\<rparr>;
         s4 = s3\<lparr>Mean := 0\<rparr>;
         s5 = s4\<lparr>ncap := - 5\<rparr>;
         s6 = s5\<lparr>GIE := True, applied := applied s @ [(r, d, m)]\<rparr>
     in case wait_ncap (captures env (length (applied s)) (r, d, m)) s6 of
          None \<Rightarrow> None
        | Some s7 \<Rightarrow> Some (s7\<lparr>AveragedDifference := ucast (Mean s7 div 50)\<rparr>))"

text \<open>
  The capture deltas of a session, in the words of the specification: each capture
  minus the one before it, the first against the capture that preceded the session.
  \<open>session_sum\<close> adds the NCAP deltas that follow the five discarded ones, as a
  natural number; \<open>measured\<close> is their mean.
\<close>

fun deltas :: "16 word \<Rightarrow> 16 word list \<Rightarrow> 16 word list" where
  "deltas l [] = []"
| "deltas l (c # cs) = (c - l) # deltas c cs"

definition session_sum :: "16 word \<Rightarrow> 16 word list \<Rightarrow> nat" where
  "session_sum l caps = sum_list (map unat (take 50 (drop 5 (deltas l caps))))"

definition measured :: "16 word list \<Rightarrow> 16 word" where
  "measured caps = of_nat (session_sum 0 caps div 50)"

text \<open>
  What a session that completes leaves in the registers and variables: \<open>k\<close> is
  the number of the session and \<open>c\<close> the configuration programmed.
\<close>

definition session :: "environment \<Rightarrow> nat \<Rightarrow> config \<Rightarrow> mcu \<Rightarrow> mcu" where
  "session env k c s =
    s\<lparr>DCOCTL := of_nat (fst (snd c)) * DCO0 + of_nat (snd (snd c)),
      BCSCTL1 := XT2OFF + of_nat (fst c),
      GIE := True,
      LastCapture := captures env k c ! 54,
      LastDifference := captures env k c ! 54 - captures env k c ! 53,
      AveragedDifference := measured (captures env k c),
      ncap := 50,
      Mean := of_nat (session_sum 0 (captures env k c))\<rparr>"

text \<open>Every session of the environment delivers the 55 captures it needs.\<close>

definition complete :: "environment \<Rightarrow> bool" where
  "complete env = (\<forall>k c. 55 \<le> length (captures env k c))"

text \<open>
  The states the counter \<open>ncap\<close> can be in: it is 0 at start-up, the handler runs
  at any moment, \<open>setDCO\<close> sets it to -5 and \<open>loopFrequencies\<close> to 0, and no other
  statement of the program writes it.
\<close>

inductive reachable :: "mcu \<Rightarrow> bool" where
  start: "ncap s = 0 \<Longrightarrow> reachable s"
| capture: "reachable s \<Longrightarrow> reachable (CAPTURE0_ISR c s)"
| arm: "reachable s \<Longrightarrow> reachable (s\<lparr>ncap := - 5\<rparr>)"
| debounce: "reachable s \<Longrightarrow> reachable (s\<lparr>ncap := 0\<rparr>)"
| other: "reachable s \<Longrightarrow> ncap s' = ncap s \<Longrightarrow> reachable s'"

section \<open>The search: searchGoal\<close>

text \<open>
  The three \<open>for\<close> loops of \<open>searchGoal\<close>. The loop variable is an argument
  and is written to the global of its name before each call of \<open>setDCO\<close> and at
  the exit, so the state returned holds the value the C variable has after the loop.
  The first and third loop also return the local \<open>prev\<close>. A loop whose
  measurement never completes does not return.
\<close>

function rsel_loop ::
  "environment \<Rightarrow> 16 word \<Rightarrow> nat \<Rightarrow> 16 word \<Rightarrow> mcu \<Rightarrow> (16 word \<times> mcu) option" where
  "rsel_loop env goal r prev s =
    (if r < 16 then
       (case setDCO env r 3 0 (s\<lparr>rsel := r\<rparr>) of
          None \<Rightarrow> None
        | Some s1 \<Rightarrow>
            if goal < AveragedDifference s1 then Some (prev, s1)
            else rsel_loop env goal (Suc r) (AveragedDifference s1) s1)
     else Some (prev, s\<lparr>rsel := r\<rparr>))"
  by pat_completeness auto
termination
  by (relation "measure (\<lambda>(env, goal, r, prev, s). 16 - r)") auto

function dco_loop :: "environment \<Rightarrow> 16 word \<Rightarrow> nat \<Rightarrow> mcu \<Rightarrow> mcu option" where
  "dco_loop env goal d s =
    (if d < 8 then
       (case setDCO env (rsel s) d 0 (s\<lparr>dco := d\<rparr>) of
          None \<Rightarrow> None
        | Some s1 \<Rightarrow>
            if goal < AveragedDifference s1 then Some s1
            else dco_loop env goal (Suc d) s1)
     else Some (s\<lparr>dco := d\<rparr>))"
  by pat_completeness auto
termination
  by (relation "measure (\<lambda>(env, goal, d, s). 8 - d)") auto

function mod_loop ::
  "environment \<Rightarrow> 16 word \<Rightarrow> nat \<Rightarrow> 16 word \<Rightarrow> mcu \<Rightarrow> (16 word \<times> mcu) option" where
  "mod_loop env goal m prev s =
    (if m < 32 then
       (case setDCO env (rsel s) (dco s) m (s\<lparr>modv := m\<rparr>) of
          None \<Rightarrow> None
        | Some s1 \<Rightarrow>
            if goal < AveragedDifference s1 then Some (prev, s1)
            else mod_loop env goal (Suc m) (AveragedDifference s1) s1)
     else Some (prev, s\<lparr>modv := m\<rparr>))"
  by pat_completeness auto
termination
  by (relation "measure (\<lambda>(env, goal, m, prev, s). 32 - m)") auto

text \<open>
  Lines 333 to 349: the range scan and the choice of the range. The subtractions and
  the comparison are those of \<open>unsigned int\<close>.
\<close>

definition range_scan :: "environment \<Rightarrow> 16 word \<Rightarrow> mcu \<Rightarrow> (16 word \<times> mcu) option" where
  "range_scan env CurrentNGoal s =
    (case rsel_loop env CurrentNGoal 0 (prev_init env) s of
       None \<Rightarrow> None
     | Some (prev, s1) \<Rightarrow>
         Some (prev,
           if rsel s1 < 16 then
             (if rsel s1 \<noteq> 0 then
                (if CurrentNGoal - prev < AveragedDifference s1 - CurrentNGoal
                 then s1\<lparr>rsel := rsel s1 - 1\<rparr> else s1)
              else s1)
           else s1\<lparr>rsel := 15\<rparr>))"

text \<open>Lines 375 to 392: the modulation scan and the choice between \<open>mod\<close> and \<open>mod-1\<close>.\<close>

definition modulation_scan ::
  "environment \<Rightarrow> 16 word \<Rightarrow> 16 word \<Rightarrow> mcu \<Rightarrow> mcu option" where
  "modulation_scan env CurrentNGoal prev0 s =
    (case mod_loop env CurrentNGoal 0 prev0 s of
       None \<Rightarrow> None
     | Some (prev, s1) \<Rightarrow>
         Some (if modv s1 < 32 then
                 (if modv s1 \<noteq> 0 then
                    (if AveragedDifference s1 - CurrentNGoal > CurrentNGoal - prev
                     then s1\<lparr>modv := modv s1 - 1\<rparr> else s1)
                  else s1)
               else s1\<lparr>modv := 31\<rparr>))"

text \<open>
  Lines 395 to 400, \<open>Check special case\<close>. \<open>m0diff\<close> is an \<open>int\<close> that holds
  an unsigned difference and is compared with an unsigned difference, so it is
  converted back to \<open>unsigned int\<close> for the comparison: the same 16 bits throughout.
\<close>

definition special_case :: "16 word \<Rightarrow> 16 word \<Rightarrow> mcu \<Rightarrow> mcu" where
  "special_case CurrentNGoal m0diff s =
    (if modv s = 31 then
       (if m0diff < AveragedDifference s - CurrentNGoal
        then s\<lparr>dco := dco s + 1, modv := 0\<rparr> else s)
     else s)"

text \<open>
  \<open>searchGoal\<close>: \<open>Some (0, s)\<close> and \<open>Some (1, s)\<close> are its two return values
  with the state it leaves, \<open>None\<close> is a measurement that never completes.
\<close>

definition searchGoal :: "environment \<Rightarrow> 16 word \<Rightarrow> mcu \<Rightarrow> (nat \<times> mcu) option" where
  "searchGoal env CurrentNGoal s =
    (case range_scan env CurrentNGoal s of
       None \<Rightarrow> None
     | Some (prev, s1) \<Rightarrow>
        (case dco_loop env CurrentNGoal 0 s1 of
           None \<Rightarrow> None
         | Some s2 \<Rightarrow>
             if dco s2 > 7 then Some (1, s2)
             else if dco s2 = 0 then Some (1, s2)
             else
               let m0diff = AveragedDifference s2 - CurrentNGoal;
                   s3 = s2\<lparr>dco := dco s2 - 1\<rparr>
               in (case modulation_scan env CurrentNGoal prev s3 of
                     None \<Rightarrow> None
                   | Some s4 \<Rightarrow>
                       let s5 = special_case CurrentNGoal m0diff s4
                       in (case setDCO env (rsel s5) (dco s5) (modv s5) s5 of
                             None \<Rightarrow> None
                           | Some s6 \<Rightarrow> Some (0, s6)))))"

section \<open>The calibration store and main\<close>

text \<open>
  Where the control thread ends up when it does not return: the loop of
  \<open>loopFrequencies\<close> (with its argument and the state on entry), the loop of
  \<open>errorLock\<close> (with the error code), or a wait that is never satisfied.
\<close>

datatype outcome = LoopFrequencies bool mcu | ErrorLock nat mcu | Spins

text \<open>The conditional compilation defines, as flags.\<close>

record build =
  FLASH_OVERRIDE :: bool
  TEST_MODE :: bool

definition errorLock :: "nat \<Rightarrow> mcu \<Rightarrow> outcome" where
  "errorLock error s =
    (let s1 = s\<lparr>DCOCTL := CALDCO_1MHZ s\<rparr>;
         s2 = s1\<lparr>BCSCTL1 := CALBC1_1MHZ s1\<rparr>
     in ErrorLock error s2)"

text \<open>\<open>testFlashEmpty\<close>: the loop over \<open>CalPos\<close>, 1 at the first byte that is not 0xFF.\<close>

fun testFlashEmpty_loop :: "16 word list \<Rightarrow> mcu \<Rightarrow> nat" where
  "testFlashEmpty_loop [] s = 0"
| "testFlashEmpty_loop (p # ps) s =
    (if flash s p \<noteq> 0xFF then 1
     else if flash s (p + 1) \<noteq> 0xFF then 1
     else testFlashEmpty_loop ps s)"

definition testFlashEmpty :: "mcu \<Rightarrow> nat" where
  "testFlashEmpty s = testFlashEmpty_loop CalPos s"

text \<open>
  A byte written to a flash address, as the flash controller of the device treats it
  (the sources only drive the controller): nothing happens while \<open>LOCK\<close> is set; with
  \<open>ERASE\<close> set the write erases the 64-byte segment of the address; with \<open>WRT\<close>
  set it programs the byte, which can only clear bits.
\<close>

definition flash_store :: "16 word \<Rightarrow> 8 word \<Rightarrow> mcu \<Rightarrow> mcu" where
  "flash_store a v s =
    (if FCTL3 s AND LOCK \<noteq> 0 then s
     else if FCTL1 s AND ERASE \<noteq> 0
       then s\<lparr>flash := (\<lambda>x. if x div 64 = a div 64 then 0xFF else flash s x)\<rparr>
     else if FCTL1 s AND WRT \<noteq> 0
       then s\<lparr>flash := (flash s)(a := flash s a AND v)\<rparr>
     else s)"

text \<open>
  The statements of \<open>flashWrite\<close> after the test for the factory calibration, in
  order, each as a state transformer; \<open>run\<close> gives the state before the first
  statement and after each one.
\<close>

definition flashWrite_body :: "build \<Rightarrow> (mcu \<Rightarrow> mcu) list" where
  "flashWrite_body b =
    [\<lambda>s. s\<lparr>GIE := False\<rparr>,
     \<lambda>s. s\<lparr>DCOCTL := CALDCO_1MHZ s\<rparr>,
     \<lambda>s. s\<lparr>BCSCTL1 := CALBC1_1MHZ s\<rparr>,
     \<lambda>s. s\<lparr>FCTL2 := FWKEY + FSSEL_1 + FN1\<rparr>,
     \<lambda>s. s\<lparr>FCTL3 := FWKEY\<rparr>] @
    (if FLASH_OVERRIDE b
     then [\<lambda>s. s\<lparr>FCTL1 := FWKEY + ERASE\<rparr>, flash_store (CalPos ! 0) 0]
     else []) @
    [\<lambda>s. s\<lparr>FCTL1 := FWKEY + WRT\<rparr>] @
    concat (map (\<lambda>i. [\<lambda>s. flash_store (CalPos ! i) (CalDCO s ! i) s,
                       \<lambda>s. flash_store (CalPos ! i + 1) (CalBC1 s ! i) s]) [0..<NFREQ]) @
    [\<lambda>s. s\<lparr>FCTL1 := FWKEY\<rparr>,
     \<lambda>s. s\<lparr>FCTL3 := FWKEY + LOCK\<rparr>,
     \<lambda>s. s\<lparr>GIE := True\<rparr>]"

fun run :: "(mcu \<Rightarrow> mcu) list \<Rightarrow> mcu \<Rightarrow> mcu list" where
  "run [] s = [s]"
| "run (f # fs) s = s # run fs (f s)"

definition flashWrite :: "build \<Rightarrow> mcu \<Rightarrow> outcome + mcu" where
  "flashWrite b s =
    (if CALBC1_1MHZ s = 0xFF \<or> CALDCO_1MHZ s = 0xFF then Inl (errorLock 4 s)
     else Inr (last (run (flashWrite_body b) s)))"

text \<open>
  The frequency error of line 595. The subtraction, the product and the quotient are
  those of \<open>long\<close>, which holds every value that occurs, so they are written on
  \<open>int\<close>; \<open>sdiv\<close> is the division of C, which truncates towards zero. The cast to
  \<open>char\<close> keeps the low 8 bits, read as a signed value (plain \<open>char\<close> is signed
  for the compiler of legacymsp430.h, and \<open>FoundErr\<close>, declared \<open>char\<close> beside
  \<open>unsigned char\<close> arrays, holds the signed error).
\<close>

definition percent_error :: "16 word \<Rightarrow> 16 word \<Rightarrow> int" where
  "percent_error avg goal =
    sint (word_of_int ((100 * (uint avg - uint goal)) sdiv uint goal) :: 8 word)"

definition in_tolerance :: "int \<Rightarrow> bool" where
  "in_tolerance error = (error \<le> MAX_ERROR \<and> error \<ge> - MAX_ERROR)"

text \<open>
  The inner loop of \<open>main\<close> (lines 586 to 597) for one goal: either the control
  thread does not come back (\<open>Inl\<close>), or the loop is left with \<open>j\<close> and the state.
\<close>

function cycles :: "environment \<Rightarrow> 16 word \<Rightarrow> nat \<Rightarrow> mcu \<Rightarrow> outcome + nat \<times> mcu" where
  "cycles env goal j s =
    (if j < MAX_CYCLES then
       (case searchGoal env goal s of
          None \<Rightarrow> Inl Spins
        | Some (r, s1) \<Rightarrow>
            if r \<noteq> 0 then Inl (errorLock 2 s1)
            else if in_tolerance (percent_error (AveragedDifference s1) goal)
              then Inr (j, s1)
              else cycles env goal (Suc j) s1)
     else Inr (j, s))"
  by pat_completeness auto
termination
  by (relation "measure (\<lambda>(env, goal, j, s). MAX_CYCLES - j)") auto

text \<open>
  For stating what the loop does: the searches for one goal run one after the other
  from a state, \<open>attempt env goal n s\<close> being the result of the search number
  \<open>n\<close> (counted from 0). The search \<open>missed\<close> when it returned 0 with a
  frequency error outside the tolerance, and \<open>hit\<close> when it returned 0 with one
  inside.
\<close>

fun attempt :: "environment \<Rightarrow> 16 word \<Rightarrow> nat \<Rightarrow> mcu \<Rightarrow> (nat \<times> mcu) option" where
  "attempt env goal 0 s = searchGoal env goal s"
| "attempt env goal (Suc n) s =
    (case searchGoal env goal s of None \<Rightarrow> None | Some (r, s1) \<Rightarrow> attempt env goal n s1)"

definition missed :: "environment \<Rightarrow> 16 word \<Rightarrow> nat \<Rightarrow> mcu \<Rightarrow> bool" where
  "missed env goal n s =
    (case attempt env goal n s of
       None \<Rightarrow> False
     | Some (r, t) \<Rightarrow> r = 0 \<and> \<not> in_tolerance (percent_error (AveragedDifference t) goal))"

definition hit :: "environment \<Rightarrow> 16 word \<Rightarrow> nat \<Rightarrow> mcu \<Rightarrow> bool" where
  "hit env goal n s =
    (case attempt env goal n s of
       None \<Rightarrow> False
     | Some (r, t) \<Rightarrow> r = 0 \<and> in_tolerance (percent_error (AveragedDifference t) goal))"

text \<open>The outer loop of \<open>main\<close> (lines 577 to 613).\<close>

function frequencies :: "environment \<Rightarrow> nat \<Rightarrow> mcu \<Rightarrow> outcome + mcu" where
  "frequencies env i s =
    (if i < NFREQ then
       (if lfxt1of_scan env i then Inl (errorLock 1 s)
        else
          (case cycles env (GoalN ! i) 0 s of
             Inl out \<Rightarrow> Inl out
           | Inr (j, s1) \<Rightarrow>
               if j \<ge> MAX_CYCLES then Inl (errorLock 5 s1)
               else
                 let s2 = s1\<lparr>CalDCO := (CalDCO s1)[i := DCOCTL s1]\<rparr>;
                     s3 = s2\<lparr>CalBC1 := (CalBC1 s2)[i := BCSCTL1 s2]\<rparr>
                 in frequencies env (Suc i) s3))
     else Inr s)"
  by pat_completeness auto
termination
  by (relation "measure (\<lambda>(env, i, s). NFREQ - i)") auto

text \<open>
  \<open>startClk32\<close> polls the fault flag until it is clear and returns the number of
  polls; \<open>configureAll\<close> returns once the crystal oscillator runs.
\<close>

partial_function (option) startClk32 :: "(nat \<Rightarrow> bool) \<Rightarrow> nat \<Rightarrow> nat option" where
  "startClk32 faulty k = (if faulty k then startClk32 faulty (Suc k) else Some (Suc k))"

definition configureAll :: "environment \<Rightarrow> mcu \<Rightarrow> mcu option" where
  "configureAll env s =
    (let s1 = s\<lparr>DCOCTL := CALDCO_1MHZ s\<rparr>;
         s2 = s1\<lparr>BCSCTL1 := CALBC1_1MHZ s1\<rparr>
     in case startClk32 (lfxt1of_start env) 0 of None \<Rightarrow> None | Some k \<Rightarrow> Some s2)"

text \<open>
  What \<open>loopFrequencies\<close> programs for the index \<open>i\<close> (lines 512 to 525), and the
  index that follows.
\<close>

definition set_frequency :: "bool \<Rightarrow> nat \<Rightarrow> mcu \<Rightarrow> mcu" where
  "set_frequency from_flash i s =
    (if from_flash then
       (let s1 = s\<lparr>DCOCTL := flash s (CalPos ! i)\<rparr>
        in s1\<lparr>BCSCTL1 := flash s1 (CalPos ! i + 1)\<rparr>)
     else
       (let s1 = s\<lparr>DCOCTL := CalDCO s ! i\<rparr>
        in s1\<lparr>BCSCTL1 := CalBC1 s1 ! i\<rparr>))"

definition next_frequency :: "nat \<Rightarrow> nat" where
  "next_frequency i = (if Suc i \<ge> NFREQ then 0 else Suc i)"

definition main :: "build \<Rightarrow> environment \<Rightarrow> mcu \<Rightarrow> outcome" where
  "main b env s =
    (case configureAll env s of
       None \<Rightarrow> Spins
     | Some s1 \<Rightarrow>
         let s2 = s1\<lparr>GIE := True\<rparr>
         in if \<not> TEST_MODE b \<and> \<not> FLASH_OVERRIDE b \<and> testFlashEmpty s2 \<noteq> 0
            then LoopFrequencies True s2
            else
              (case frequencies env 0 s2 of
                 Inl out \<Rightarrow> out
               | Inr s3 \<Rightarrow>
                   let s4 = s3\<lparr>DCOCTL := CALDCO_1MHZ s3\<rparr>;
                       s5 = s4\<lparr>BCSCTL1 := CALBC1_1MHZ s4\<rparr>
                   in if TEST_MODE b then LoopFrequencies False s5
                      else
                        (case flashWrite b s5 of
                           Inl out \<Rightarrow> out
                         | Inr s6 \<Rightarrow> LoopFrequencies True s6)))"

text \<open>
  The state after reset, the information memory holding \<open>fl\<close>: the variables are
  zero (they have static storage), the clock and flash registers hold their reset
  values (the flash is locked), interrupts are disabled.
\<close>

definition power_up :: "(16 word \<Rightarrow> 8 word) \<Rightarrow> mcu" where
  "power_up fl =
    \<lparr>DCOCTL = 0x60, BCSCTL1 = 0x87, FCTL1 = 0x9600, FCTL2 = 0x9642, FCTL3 = 0x9658,
     GIE = False, flash = fl, CalDCO = replicate NFREQ 0, CalBC1 = replicate NFREQ 0,
     LastCapture = 0, LastDifference = 0, AveragedDifference = 0, ncap = 0,
     rsel = 0, dco = 0, modv = 0, Mean = 0, applied = []\<rparr>"

text \<open>
  A synthetic oscillator for examples: in every session the timer advances by
  \<open>f\<close> of the configuration between two captures, 55 captures arrive, and the
  crystal oscillator never faults.
\<close>

definition synthetic :: "(config \<Rightarrow> nat) \<Rightarrow> environment" where
  "synthetic f =
    \<lparr>captures = (\<lambda>k c. map (\<lambda>i. of_nat (i * f c)) [1..<56]),
     lfxt1of_start = (\<lambda>k. False), lfxt1of_scan = (\<lambda>i. False), prev_init = 0\<rparr>"

text \<open>
  Four oscillators for it. \<open>bench\<close> rises with the range, the step and the
  modulation. \<open>coarse\<close> has two frequencies only, one for the step 0 and one for
  the other steps; \<open>gap\<close> is like it with the upper frequency far above.
  \<open>jitter\<close> is a first range whose measurements carry noise of a few counts: the
  step 0 at modulation 31 reads one count above the step 1 at modulation 0.
\<close>

definition bench :: "config \<Rightarrow> nat" where
  "bench c = (600 + 100 * fst (snd c) + 3 * snd (snd c)) * (fst c + 1)"

definition coarse :: "config \<Rightarrow> nat" where
  "coarse c = (if fst (snd c) = 0 then 800 else 1100)"


definition jitter :: "config \<Rightarrow> nat" where
  "jitter c =
    (if c = (0, 0, 31) then 979
     else if c = (0, 1, 0) then 978
     else if fst c = 0 \<and> fst (snd c) = 0 \<and> snd (snd c) < 31 then 914 + 2 * snd (snd c)
     else 1200)"

text \<open>
  Three contents of the information memory for examples: \<open>erased\<close> is blank
  throughout, \<open>factory\<close> holds a factory calibration for 1 MHz and nothing else,
  \<open>calibrated\<close> holds in addition one written calibration slot.
\<close>

definition erased :: "16 word \<Rightarrow> 8 word" where
  "erased a = 0xFF"

definition factory :: "16 word \<Rightarrow> 8 word" where
  "factory a = (if a = 0x10FE then 0xD0 else if a = 0x10FF then 0x86 else 0xFF)"

definition calibrated :: "16 word \<Rightarrow> 8 word" where
  "calibrated a = (if a = 0x10AE then 0x4A else if a = 0x10AF then 0x84 else factory a)"

definition release :: build where
  "release = \<lparr>FLASH_OVERRIDE = False, TEST_MODE = False\<rparr>"

text \<open>The loops are unfolded one iteration at a time, by hand.\<close>

declare rsel_loop.simps [simp del] dco_loop.simps [simp del] mod_loop.simps [simp del]
  cycles.simps [simp del] frequencies.simps [simp del]

section \<open>Word arithmetic\<close>

lemma sint_inc: "sint (x :: 16 word) < 10000 \<Longrightarrow> sint (x + 1) = sint x + 1"
proof -
  assume a: "sint x < 10000"
  have g: "- (2 ^ 15) \<le> sint x"
    using sint_ge [of x] by simp
  have "sint (x + 1) = signed_take_bit 15 (sint x + 1)"
    by (simp add: sint_word_ariths)
  also have "\<dots> = sint x + 1"
    using a g by (intro signed_take_bit_int_eq_self) simp_all
  finally show ?thesis .
qed

lemma unat_lt16: "unat (x :: 16 word) < 65536"
  using unsigned_less [of x, where ?'a = nat] by simp

lemma unat_ucast_16_32: "unat (ucast (x :: 16 word) :: 32 word) = unat x"
  using unat_lt16 [of x] by (simp add: unsigned_ucast_eq take_bit_nat_eq_self_iff)

section \<open>The capture handler\<close>

lemma isr_ncap:
  "ncap (CAPTURE0_ISR c s) = (if sint (ncap s) < 10000 then ncap s + 1 else ncap s)"
  by (simp add: CAPTURE0_ISR_def Let_def)

lemma isr_sint:
  "sint (ncap (CAPTURE0_ISR c s)) = (if sint (ncap s) < 10000 then sint (ncap s) + 1 else sint (ncap s))"
  by (simp add: isr_ncap sint_inc)

lemma reachable_bounds: "reachable s \<Longrightarrow> - 5 \<le> sint (ncap s) \<and> sint (ncap s) \<le> 10000"
  by (induction rule: reachable.induct) (auto simp: isr_sint)

lemma isr_fold_sint:
  "sint (ncap s) \<le> 10000 \<Longrightarrow>
     sint (ncap (fold CAPTURE0_ISR cs s)) = min 10000 (sint (ncap s) + int (length cs))"
proof (induction cs arbitrary: s)
  case Nil
  then show ?case by simp
next
  case (Cons c cs)
  have "sint (ncap (CAPTURE0_ISR c s)) \<le> 10000"
    using Cons.prems by (simp add: isr_sint)
  from Cons.IH [OF this] show ?case
    using Cons.prems by (auto simp: isr_sint min_def)
qed

lemma deltas_snoc: "deltas l (xs @ [x]) = deltas l xs @ [x - last (l # xs)]"
  by (induction xs arbitrary: l) auto

lemma length_deltas [simp]: "length (deltas l xs) = length xs"
  by (induction xs arbitrary: l) auto

lemma isr_run:
  "sint (ncap s) = n \<Longrightarrow> - 5 \<le> n \<Longrightarrow> n + int (length xs) \<le> 50 \<Longrightarrow>
   fold CAPTURE0_ISR xs s =
     s\<lparr>LastDifference := last (LastDifference s # deltas (LastCapture s) xs),
       LastCapture := last (LastCapture s # xs),
       Mean := Mean s + sum_list (map ucast (drop (nat (- n)) (deltas (LastCapture s) xs))),
       ncap := ncap s + of_nat (length xs)\<rparr>"
proof (induction xs rule: rev_induct)
  case Nil
  then show ?case by simp
next
  case (snoc x xs)
  have b: "n + int (length xs) \<le> 49" using snoc.prems by simp
  then have b': "n + int (length xs) \<le> 50" by simp
  note ih = snoc.IH [OF snoc.prems(1) snoc.prems(2) b']
  have "sint (ncap (fold CAPTURE0_ISR xs s)) = min 10000 (n + int (length xs))"
    using isr_fold_sint [of s xs] snoc.prems by simp
  then have nc: "sint (ncap (fold CAPTURE0_ISR xs s)) = n + int (length xs)"
    using b by simp
  let ?t = "fold CAPTURE0_ISR xs s"
  have t: "LastCapture ?t = last (LastCapture s # xs)"
     "ncap ?t = ncap s + of_nat (length xs)"
     "Mean ?t = Mean s + sum_list (map ucast (drop (nat (- n)) (deltas (LastCapture s) xs)))"
    by (simp_all add: ih)
  have dr: "drop (nat (- n)) (deltas (LastCapture s) (xs @ [x])) =
      (if 0 \<le> n + int (length xs)
       then drop (nat (- n)) (deltas (LastCapture s) xs) @ [x - last (LastCapture s # xs)]
       else [])"
    by (auto simp: deltas_snoc)
  have "fold CAPTURE0_ISR (xs @ [x]) s = CAPTURE0_ISR x ?t" by simp
  also have "\<dots> = s\<lparr>LastDifference := last (LastDifference s # deltas (LastCapture s) (xs @ [x])),
       LastCapture := last (LastCapture s # (xs @ [x])),
       Mean := Mean s + sum_list (map ucast (drop (nat (- n)) (deltas (LastCapture s) (xs @ [x])))),
       ncap := ncap s + of_nat (length (xs @ [x]))\<rparr>"
    unfolding dr
    apply (subst ih)
    using b nc [unfolded t(2)]
    apply (simp add: CAPTURE0_ISR_def Let_def NCAP_def deltas_snoc ac_simps)
    done
  finally show ?case .
qed

lemma wait_ncap_run:
  "sint (ncap s) = n \<Longrightarrow> - 5 \<le> n \<Longrightarrow> n \<le> 50 \<Longrightarrow> nat (50 - n) \<le> length caps \<Longrightarrow>
   wait_ncap caps s = Some (fold CAPTURE0_ISR (take (nat (50 - n)) caps) s)"
proof (induction caps arbitrary: s n)
  case Nil
  then show ?case by (simp add: NCAP_def)
next
  case (Cons c cs)
  show ?case
  proof (cases "n < 50")
    case False
    then show ?thesis using Cons.prems by (simp add: NCAP_def)
  next
    case True
    have n1: "sint (ncap (CAPTURE0_ISR c s)) = n + 1"
      using Cons.prems True by (simp add: isr_sint)
    have "wait_ncap cs (CAPTURE0_ISR c s) =
        Some (fold CAPTURE0_ISR (take (nat (50 - (n + 1))) cs) (CAPTURE0_ISR c s))"
      using Cons.prems True by (intro Cons.IH [OF n1]) simp_all
    moreover have "nat (50 - n) = Suc (nat (50 - (n + 1)))"
      using True by simp
    ultimately show ?thesis
      using Cons.prems True by (simp add: NCAP_def)
  qed
qed

lemma wait_ncap_starved:
  "sint (ncap s) = n \<Longrightarrow> n \<le> 50 \<Longrightarrow> length caps < nat (50 - n) \<Longrightarrow> wait_ncap caps s = None"
proof (induction caps arbitrary: s n)
  case Nil
  then show ?case by (simp add: NCAP_def)
next
  case (Cons c cs)
  have lt: "n < 49" using Cons.prems by simp
  have n1: "sint (ncap (CAPTURE0_ISR c s)) = n + 1"
    using Cons.prems lt by (simp add: isr_sint)
  have "wait_ncap cs (CAPTURE0_ISR c s) = None"
    using Cons.prems lt by (intro Cons.IH [OF n1]) simp_all
  then show ?case using Cons.prems lt by (simp add: NCAP_def)
qed

lemma deltas_take: "deltas l (take n xs) = take n (deltas l xs)"
proof (induction xs arbitrary: l n)
  case Nil
  then show ?case by simp
next
  case (Cons x xs)
  then show ?case by (cases n) simp_all
qed

lemma deltas_drop_Suc: "drop (Suc n) (deltas l xs) = drop (Suc n) (deltas l' xs)"
  by (cases xs) simp_all

lemma unat_sum_ucast:
  "length ds \<le> 50 \<Longrightarrow>
     unat (sum_list (map ucast ds) :: 32 word) = sum_list (map unat (ds :: 16 word list)) \<and>
     sum_list (map unat ds) \<le> 65535 * length ds"
proof (induction ds)
  case Nil
  then show ?case by simp
next
  case (Cons d ds)
  then have ih: "unat (sum_list (map ucast ds) :: 32 word) = sum_list (map unat ds)"
    and bound: "sum_list (map unat ds) \<le> 65535 * length ds"
    by simp_all
  have len: "length ds \<le> 49" using Cons.prems by simp
  have d: "unat d \<le> 65535" using unat_lt16 [of d] by simp
  have small: "unat (ucast d :: 32 word) + unat (sum_list (map ucast ds) :: 32 word) < 2 ^ LENGTH(32)"
    using d bound len by (simp add: ih unat_ucast_16_32)
  have "unat (ucast d + sum_list (map ucast ds) :: 32 word) =
      unat (ucast d :: 32 word) + unat (sum_list (map ucast ds) :: 32 word)"
    using small by (simp only: unat_add_lem [THEN iffD1])
  then show ?case using d bound by (simp add: ih unat_ucast_16_32)
qed

lemma deltas_nth:
  "i < length xs \<Longrightarrow> deltas l xs ! i = xs ! i - (if i = 0 then l else xs ! (i - 1))"
proof (induction xs arbitrary: l i)
  case Nil
  then show ?case by simp
next
  case (Cons x xs)
  then show ?case by (cases i) (auto simp: nth_Cons')
qed

lemma setDCO_complete:
  assumes "55 \<le> length (captures env (length (applied s)) (r, d, m))"
  shows "setDCO env r d m s =
    Some (s\<lparr>DCOCTL := of_nat d * DCO0 + of_nat m,
            BCSCTL1 := XT2OFF + of_nat r,
            GIE := True,
            LastCapture := captures env (length (applied s)) (r, d, m) ! 54,
            LastDifference := captures env (length (applied s)) (r, d, m) ! 54 -
               captures env (length (applied s)) (r, d, m) ! 53,
            AveragedDifference := measured (captures env (length (applied s)) (r, d, m)),
            ncap := 50,
            Mean := of_nat (session_sum 0 (captures env (length (applied s)) (r, d, m))),
            applied := applied s @ [(r, d, m)]\<rparr>)"
proof -
  let ?caps = "captures env (length (applied s)) (r, d, m)"
  let ?ds = "take 50 (drop 5 (deltas (LastCapture s) ?caps))"
  let ?s6 = "s\<lparr>BCSCTL1 := XT2OFF + of_nat r, DCOCTL := of_nat d * DCO0 + of_nat m,
     GIE := False, Mean := 0, ncap := - 5, GIE := True, applied := applied s @ [(r, d, m)]\<rparr>"
  have n: "sint (ncap ?s6) = - 5" by simp
  have w: "wait_ncap ?caps ?s6 = Some (fold CAPTURE0_ISR (take 55 ?caps) ?s6)"
    using wait_ncap_run [OF n, of ?caps] assms by simp
  have len: "length (take 55 ?caps) = 55" using assms by simp
  have f: "fold CAPTURE0_ISR (take 55 ?caps) ?s6 =
     ?s6\<lparr>LastDifference := last (LastDifference ?s6 # deltas (LastCapture ?s6) (take 55 ?caps)),
       LastCapture := last (LastCapture ?s6 # take 55 ?caps),
       Mean := Mean ?s6 + sum_list (map ucast (drop (nat (- (- 5))) (deltas (LastCapture ?s6) (take 55 ?caps)))),
       ncap := ncap ?s6 + of_nat (length (take 55 ?caps))\<rparr>"
    by (rule isr_run [OF n]) (simp_all add: len)
  have ne: "take 55 ?caps \<noteq> []" using len by auto
  have l1: "last (LastCapture s # take 55 ?caps) = ?caps ! 54"
    using ne len by (simp add: last_conv_nth)
  have ne': "deltas (LastCapture s) (take 55 ?caps) \<noteq> []"
    using len by (metis length_deltas length_0_conv zero_neq_numeral)
  have ld: "last (deltas (LastCapture s) (take 55 ?caps)) = ?caps ! 54 - ?caps ! 53"
    using len ne' deltas_nth [of 54 "take 55 ?caps" "LastCapture s"]
    by (simp add: last_conv_nth)
  have dd: "drop 5 (deltas (LastCapture s) (take 55 ?caps)) = ?ds"
    by (simp add: deltas_take drop_take)
  have l50: "length ?ds \<le> 50" by simp
  have ds0: "?ds = take 50 (drop 5 (deltas 0 ?caps))"
    using deltas_drop_Suc [of 4 "LastCapture s" ?caps 0] by simp
  have us: "unat (sum_list (map ucast ?ds) :: 32 word) = session_sum 0 ?caps"
    using unat_sum_ucast [OF l50] by (simp add: session_sum_def ds0)
  have mean: "(sum_list (map ucast ?ds) :: 32 word) = of_nat (session_sum 0 ?caps)"
    using us by (metis of_nat_unat ucast_id)
  have "unat ((of_nat (session_sum 0 ?caps) :: 32 word) div 50) = session_sum 0 ?caps div 50"
    using us by (simp add: unat_div flip: mean)
  then have avg: "(ucast ((of_nat (session_sum 0 ?caps) :: 32 word) div 50) :: 16 word) = measured ?caps"
    by (metis measured_def of_nat_unat)
  show ?thesis
    unfolding setDCO_def Let_def
    apply (simp only: w option.case)
    apply (simp only: f)
    using assms ne l1
    apply (simp add: ne' dd mean avg min_def ld)
    done
qed

section \<open>The sample counter saturates\<close>

text \<open>
  Claim C10. The capture handler increments \<open>ncap\<close> only while it is below 10000.
  In every reachable state \<open>ncap\<close> is at most 10000; one run of the handler adds one
  below 10000 and changes nothing at 10000, without overflow of the 16-bit counter;
  and after any number of captures with no reset in between the counter is the
  smaller of 10000 and its old value plus the number of captures, so it never
  decreases and never passes 10000.
\<close>

theorem ncap_saturates:
  "reachable s \<Longrightarrow>
     sint (ncap s) \<le> 10000 \<and>
     ncap (CAPTURE0_ISR c s) = (if sint (ncap s) < 10000 then ncap s + 1 else ncap s) \<and>
     sint (ncap (CAPTURE0_ISR c s)) = (if sint (ncap s) < 10000 then sint (ncap s) + 1 else 10000) \<and>
     sint (ncap (fold CAPTURE0_ISR cs s)) = min 10000 (sint (ncap s) + int (length cs))"
proof -
  assume r: "reachable s"
  then have b: "sint (ncap s) \<le> 10000" using reachable_bounds by blast
  show ?thesis
    using b isr_fold_sint [OF b, of cs] by (simp add: isr_ncap isr_sint sint_inc)
qed

theorem ncap_saturates_witness:
  "sint (ncap (fold CAPTURE0_ISR (replicate 70000 0) (power_up erased \<lparr>ncap := - 5\<rparr>))) = 10000"
  using ncap_saturates [OF reachable.arm [OF reachable.start [of "power_up erased"]],
      of 0 "replicate 70000 0"]
  by (simp add: power_up_def)

section \<open>A measurement session\<close>

lemma session_sum_any: "session_sum l caps = session_sum 0 caps"
  using deltas_drop_Suc [of 4 l caps 0] by (simp add: session_sum_def)

lemma session_sum_bound: "session_sum l caps \<le> 3276750"
proof -
  let ?ds = "take 50 (drop 5 (deltas l caps))"
  have "length ?ds \<le> 50" by simp
  from unat_sum_ucast [OF this] have "sum_list (map unat ?ds) \<le> 65535 * length ?ds"
    by blast
  also have "\<dots> \<le> 65535 * 50" by (rule mult_le_mono2) simp
  finally show ?thesis by (simp add: session_sum_def)
qed

lemma unat_measured: "unat (measured caps) = session_sum 0 caps div 50"
proof -
  have "session_sum 0 caps div 50 < 65536"
    using session_sum_bound [of 0 caps] by simp
  then show ?thesis
    by (simp add: measured_def unat_of_nat take_bit_nat_eq_self)
qed

lemma unat_Mean: "unat (of_nat (session_sum 0 caps) :: 32 word) = session_sum 0 caps"
proof -
  have "session_sum 0 caps < 2 ^ 32"
    using session_sum_bound [of 0 caps] by simp
  then show ?thesis
    by (simp add: unat_of_nat take_bit_nat_eq_self)
qed

lemma setDCO_starved:
  assumes "length (captures env (length (applied s)) (r, d, m)) < 55"
  shows "setDCO env r d m s = None"
proof -
  let ?s6 = "s\<lparr>BCSCTL1 := XT2OFF + of_nat r, DCOCTL := of_nat d * DCO0 + of_nat m,
     GIE := False, Mean := 0, ncap := - 5, GIE := True, applied := applied s @ [(r, d, m)]\<rparr>"
  have n: "sint (ncap ?s6) = - 5" by simp
  have "wait_ncap (captures env (length (applied s)) (r, d, m)) ?s6 = None"
    using wait_ncap_starved [OF n] assms by simp
  then show ?thesis
    unfolding setDCO_def Let_def by (simp only: option.case)
qed

text \<open>
  Claim C4. \<open>setDCO\<close> waits until the handler has counted NCAP samples: with
  fewer than 55 captures it never returns. With 55 or more it returns after the 55th
  capture; the first five deltas are not added, \<open>Mean\<close> is the sum of the next
  NCAP = 50 deltas, and \<open>AveragedDifference\<close> is the integer quotient of that sum
  by NCAP.
\<close>

theorem setDCO_mean:
  "(length (captures env (length (applied s)) (r, d, m)) < 55 \<longrightarrow> setDCO env r d m s = None) \<and>
   (55 \<le> length (captures env (length (applied s)) (r, d, m)) \<longrightarrow>
     (\<exists>s'. setDCO env r d m s = Some s' \<and>
        unat (Mean s') = session_sum (LastCapture s) (captures env (length (applied s)) (r, d, m)) \<and>
        unat (AveragedDifference s') =
          session_sum (LastCapture s) (captures env (length (applied s)) (r, d, m)) div 50 \<and>
        sint (ncap s') = NCAP \<and>
        LastCapture s' = captures env (length (applied s)) (r, d, m) ! 54))"
proof (intro conjI impI)
  assume "length (captures env (length (applied s)) (r, d, m)) < 55"
  then show "setDCO env r d m s = None" by (rule setDCO_starved)
next
  assume "55 \<le> length (captures env (length (applied s)) (r, d, m))"
  from setDCO_complete [OF this] show "\<exists>s'. setDCO env r d m s = Some s' \<and>
        unat (Mean s') = session_sum (LastCapture s) (captures env (length (applied s)) (r, d, m)) \<and>
        unat (AveragedDifference s') =
          session_sum (LastCapture s) (captures env (length (applied s)) (r, d, m)) div 50 \<and>
        sint (ncap s') = NCAP \<and>
        LastCapture s' = captures env (length (applied s)) (r, d, m) ! 54"
    by (simp add: unat_Mean unat_measured NCAP_def
        session_sum_any [of "LastCapture s"])
qed

lemma synthetic_length: "length (captures (synthetic f) k c) = 55"
  by (simp add: synthetic_def)

lemma synthetic_complete: "complete (synthetic f)"
  by (simp add: complete_def synthetic_length)

lemma synthetic_deltas:
  "take 50 (drop 5 (deltas l (map (\<lambda>i. of_nat (i * n)) [1..<56]))) = replicate 50 (of_nat n)"
proof (rule nth_equalityI)
  show "length (take 50 (drop 5 (deltas l (map (\<lambda>i. of_nat (i * n)) [1..<56])))) =
      length (replicate 50 (of_nat n :: 16 word))"
    by simp
next
  fix i
  assume "i < length (take 50 (drop 5 (deltas l (map (\<lambda>i. of_nat (i * n)) [1..<56]))))"
  then have i: "i < 50" by simp
  then have "take 50 (drop 5 (deltas l (map (\<lambda>i. of_nat (i * n)) [1..<56]))) ! i =
      deltas l (map (\<lambda>i. of_nat (i * n)) [1..<56]) ! (5 + i)"
    by simp
  also have "\<dots> = (of_nat ((6 + i) * n) :: 16 word) - of_nat ((5 + i) * n)"
    using i by (simp add: deltas_nth nth_append add.commute)
  also have "\<dots> = of_nat n"
    by (simp add: algebra_simps)
  finally show "take 50 (drop 5 (deltas l (map (\<lambda>i. of_nat (i * n)) [1..<56]))) ! i =
      replicate 50 (of_nat n) ! i"
    using i by simp
qed

lemma synthetic_session_sum:
  "f c < 65536 \<Longrightarrow> session_sum l (captures (synthetic f) k c) = 50 * f c"
proof -
  assume "f c < 65536"
  then have u: "unat (of_nat (f c) :: 16 word) = f c"
    by (simp add: unat_of_nat take_bit_nat_eq_self)
  have "session_sum l (captures (synthetic f) k c) =
      sum_list (map unat (replicate 50 (of_nat (f c) :: 16 word)))"
    unfolding session_sum_def synthetic_def
    by (simp only: environment.simps synthetic_deltas)
  then show ?thesis by (simp add: sum_list_replicate u)
qed

lemma synthetic_measured:
  "f c < 65536 \<Longrightarrow> measured (captures (synthetic f) k c) = of_nat (f c)"
  by (simp add: measured_def synthetic_session_sum)

theorem setDCO_mean_witness:
  "\<exists>s'. setDCO (synthetic (\<lambda>c. 1000)) 0 3 0 (power_up erased) = Some s' \<and>
     unat (AveragedDifference s') = 1000"
  using setDCO_mean [of "synthetic (\<lambda>c. 1000)" "power_up erased" 0 3 0]
  by (simp add: synthetic_session_sum synthetic_length) blast

section \<open>The frequency error\<close>

text \<open>
  Claim C5, at the input where the code departs from it: for the goal 977 and a
  measurement of 3479 the exact quotient \<open>100 * (3479 - 977) / 977\<close> is 256, far
  outside the tolerance, but the error that line 595 computes is 0 (the cast to
  \<open>char\<close> keeps the low 8 bits of 256), and the attempt is accepted.
\<close>

theorem percent_error_wraps:
  "(100 * (uint (3479 :: 16 word) - uint (977 :: 16 word))) sdiv uint (977 :: 16 word) = 256 \<and>
   percent_error 3479 977 = 0 \<and> in_tolerance (percent_error 3479 977)"
  by (simp add: percent_error_def in_tolerance_def MAX_ERROR_def signed_divide_int_def)

section \<open>The store write\<close>

lemma run_not_Nil [simp]: "run fs s \<noteq> []"
  by (cases fs) simp_all

lemma last_run: "last (run fs s) = fold (\<lambda>f. f) fs s"
  by (induction fs arbitrary: s) simp_all

lemma butlast_run: "butlast (run (fs @ [g]) s) = run fs s"
  by (induction fs arbitrary: s) simp_all

lemma flash_store_frame [simp]:
  "GIE (flash_store a v s) = GIE s"
  "FCTL1 (flash_store a v s) = FCTL1 s"
  "FCTL3 (flash_store a v s) = FCTL3 s"
  "CalDCO (flash_store a v s) = CalDCO s"
  "CalBC1 (flash_store a v s) = CalBC1 s"
  by (simp_all add: flash_store_def)

lemma flashWrite_body_split:
  "flashWrite_body b =
     (\<lambda>s. s\<lparr>GIE := False\<rparr>) # butlast (tl (flashWrite_body b)) @ [\<lambda>s. s\<lparr>GIE := True\<rparr>]"
  by (simp add: flashWrite_body_def butlast_append)

lemma flashWrite_final:
  "FCTL3 (last (run (flashWrite_body b) s)) AND LOCK \<noteq> 0 \<and>
   GIE (last (run (flashWrite_body b) s))"
  by (simp add: last_run flashWrite_body_def FWKEY_def LOCK_def NFREQ_def upt_rec)

lemma flashWrite_between:
  "list_all (\<lambda>t. \<not> GIE t) (butlast (tl (run (flashWrite_body b) s)))"
proof -
  have "butlast (tl (run (flashWrite_body b) s)) =
      run (butlast (tl (flashWrite_body b))) (s\<lparr>GIE := False\<rparr>)"
    by (subst flashWrite_body_split) (simp add: butlast_run)
  moreover have "list_all (\<lambda>t. \<not> GIE t) (run (butlast (tl (flashWrite_body b))) (s\<lparr>GIE := False\<rparr>))"
    by (simp add: flashWrite_body_def butlast_append NFREQ_def upt_rec)
  ultimately show ?thesis by simp
qed

lemma flashWrite_steps:
  "list_all (\<lambda>(t, t'). (FCTL3 t' \<noteq> FCTL3 t \<or> flash t' \<noteq> flash t) \<longrightarrow> \<not> GIE t \<and> \<not> GIE t')
      (zip (run (flashWrite_body b) s) (tl (run (flashWrite_body b) s)))"
  by (simp add: flashWrite_body_def NFREQ_def upt_rec)

lemma flashWrite_unlocked:
  "FCTL3 s AND LOCK \<noteq> 0 \<Longrightarrow>
   list_all (\<lambda>t. FCTL3 t AND LOCK = 0 \<longrightarrow> \<not> GIE t) (run (flashWrite_body b) s)"
  by (simp add: flashWrite_body_def NFREQ_def upt_rec FWKEY_def LOCK_def)

text \<open>
  Claim C9. When the factory calibration for 1 MHz is blank, \<open>flashWrite\<close> ends in
  the error loop with code 4 and the flash and the flash control registers are as on
  entry: nothing was unlocked or written. Otherwise it returns; every state between
  the first statement (\<open>dint\<close>) and the last (\<open>eint\<close>) has interrupts disabled,
  every statement that changes \<open>FCTL3\<close> or the flash runs with interrupts disabled
  before and after it, and on return the \<open>LOCK\<close> bit is set. With the flash
  locked on entry, as it is from reset on, interrupts are disabled in every state in
  which \<open>LOCK\<close> is clear.
\<close>

theorem flashWrite_protocol:
  "(CALBC1_1MHZ s = 0xFF \<or> CALDCO_1MHZ s = 0xFF \<longrightarrow>
      (\<exists>s'. flashWrite b s = Inl (ErrorLock 4 s') \<and> flash s' = flash s \<and>
         FCTL1 s' = FCTL1 s \<and> FCTL2 s' = FCTL2 s \<and> FCTL3 s' = FCTL3 s \<and>
         (FCTL3 s AND LOCK \<noteq> 0 \<longrightarrow> FCTL3 s' AND LOCK \<noteq> 0))) \<and>
   (CALBC1_1MHZ s \<noteq> 0xFF \<and> CALDCO_1MHZ s \<noteq> 0xFF \<longrightarrow>
      (\<exists>s'. flashWrite b s = Inr s' \<and> s' = last (run (flashWrite_body b) s) \<and>
         FCTL3 s' AND LOCK \<noteq> 0 \<and> GIE s') \<and>
      list_all (\<lambda>t. \<not> GIE t) (butlast (tl (run (flashWrite_body b) s))) \<and>
      list_all (\<lambda>(t, t'). (FCTL3 t' \<noteq> FCTL3 t \<or> flash t' \<noteq> flash t) \<longrightarrow> \<not> GIE t \<and> \<not> GIE t')
        (zip (run (flashWrite_body b) s) (tl (run (flashWrite_body b) s))) \<and>
      (FCTL3 s AND LOCK \<noteq> 0 \<longrightarrow>
         list_all (\<lambda>t. FCTL3 t AND LOCK = 0 \<longrightarrow> \<not> GIE t) (run (flashWrite_body b) s)))"
proof (intro conjI impI)
  assume "CALBC1_1MHZ s = 0xFF \<or> CALDCO_1MHZ s = 0xFF"
  then show "\<exists>s'. flashWrite b s = Inl (ErrorLock 4 s') \<and> flash s' = flash s \<and>
         FCTL1 s' = FCTL1 s \<and> FCTL2 s' = FCTL2 s \<and> FCTL3 s' = FCTL3 s \<and>
         (FCTL3 s AND LOCK \<noteq> 0 \<longrightarrow> FCTL3 s' AND LOCK \<noteq> 0)"
    by (auto simp: flashWrite_def errorLock_def Let_def)
next
  assume a: "CALBC1_1MHZ s \<noteq> 0xFF \<and> CALDCO_1MHZ s \<noteq> 0xFF"
  show "\<exists>s'. flashWrite b s = Inr s' \<and> s' = last (run (flashWrite_body b) s) \<and>
         FCTL3 s' AND LOCK \<noteq> 0 \<and> GIE s'"
    using a flashWrite_final [of b s] by (simp add: flashWrite_def)
  show "list_all (\<lambda>t. \<not> GIE t) (butlast (tl (run (flashWrite_body b) s)))"
    by (rule flashWrite_between)
  show "list_all (\<lambda>(t, t'). (FCTL3 t' \<noteq> FCTL3 t \<or> flash t' \<noteq> flash t) \<longrightarrow> \<not> GIE t \<and> \<not> GIE t')
        (zip (run (flashWrite_body b) s) (tl (run (flashWrite_body b) s)))"
    by (rule flashWrite_steps)
next
  assume "FCTL3 s AND LOCK \<noteq> 0"
  then show "list_all (\<lambda>t. FCTL3 t AND LOCK = 0 \<longrightarrow> \<not> GIE t) (run (flashWrite_body b) s)"
    by (rule flashWrite_unlocked)
qed

theorem flashWrite_protocol_witness:
  "(\<exists>s'. flashWrite release (power_up erased) = Inl (ErrorLock 4 s') \<and> flash s' = erased \<and>
      FCTL3 s' = 0x9658) \<and>
   (\<exists>s'. flashWrite release (power_up factory) = Inr s' \<and> FCTL3 s' AND LOCK \<noteq> 0 \<and> GIE s')"
proof -
  have e: "CALBC1_1MHZ (power_up erased) = 0xFF" "flash (power_up erased) = erased"
    "FCTL3 (power_up erased) = 0x9658"
    by (simp_all add: CALBC1_1MHZ_def power_up_def erased_def)
  have f: "CALBC1_1MHZ (power_up factory) \<noteq> 0xFF" "CALDCO_1MHZ (power_up factory) \<noteq> 0xFF"
    by (simp_all add: CALBC1_1MHZ_def CALDCO_1MHZ_def power_up_def factory_def)
  show ?thesis
    using flashWrite_protocol [of "power_up erased" release]
      flashWrite_protocol [of "power_up factory" release] e f
    by auto
qed

section \<open>Boot with a written store\<close>

lemma testFlashEmpty_loop_nonblank:
  "(testFlashEmpty_loop ps s \<noteq> 0) =
     (\<exists>p \<in> set ps. flash s p \<noteq> 0xFF \<or> flash s (p + 1) \<noteq> 0xFF)"
  by (induction ps) auto

text \<open>
  Claim C7. When the crystal oscillator has started, the store is not blank (some byte
  of a calibration slot is not 0xFF) and neither \<open>FLASH_OVERRIDE\<close> nor
  \<open>TEST_MODE\<close> is set, \<open>main\<close> enters \<open>loopFrequencies(1)\<close> in a state that
  depends on the flash content alone: no measurement session was run, the flash and
  the calibration tables in RAM are as after reset, and for every index the loop
  programs the two bytes of that slot. A boot from the flash left behind, whatever the
  hardware does then, ends in the same state.
\<close>

theorem boot_resumes_from_flash:
  assumes "startClk32 (lfxt1of_start env) 0 = Some k"
    and "\<not> FLASH_OVERRIDE b" and "\<not> TEST_MODE b"
    and "\<exists>p \<in> set CalPos. fl p \<noteq> 0xFF \<or> fl (p + 1) \<noteq> 0xFF"
  shows "\<exists>s'. main b env (power_up fl) = LoopFrequencies True s' \<and>
      s' = (power_up fl)\<lparr>DCOCTL := fl 0x10FE, BCSCTL1 := fl 0x10FF, GIE := True\<rparr> \<and>
      applied s' = [] \<and> flash s' = fl \<and>
      CalDCO s' = CalDCO (power_up fl) \<and> CalBC1 s' = CalBC1 (power_up fl) \<and>
      (\<forall>i < NFREQ. DCOCTL (set_frequency True i s') = fl (CalPos ! i) \<and>
         BCSCTL1 (set_frequency True i s') = fl (CalPos ! i + 1) \<and>
         flash (set_frequency True i s') = fl) \<and>
      (\<forall>env' k'. startClk32 (lfxt1of_start env') 0 = Some k' \<longrightarrow>
         main b env' (power_up (flash s')) = LoopFrequencies True s')"
proof -
  let ?s' = "(power_up fl)\<lparr>DCOCTL := fl 0x10FE, BCSCTL1 := fl 0x10FF, GIE := True\<rparr>"
  have t: "testFlashEmpty ?s' \<noteq> 0"
    unfolding testFlashEmpty_def testFlashEmpty_loop_nonblank
    using assms(4) by (simp add: power_up_def)
  have m: "main b e (power_up fl) = LoopFrequencies True ?s'"
    if "startClk32 (lfxt1of_start e) 0 = Some j" for e j
    using that assms(2,3) t
    by (simp add: main_def configureAll_def Let_def CALDCO_1MHZ_def CALBC1_1MHZ_def power_up_def)
  have fl: "flash ?s' = fl" by (simp add: power_up_def)
  have a: "applied ?s' = []" "CalDCO ?s' = CalDCO (power_up fl)"
    "CalBC1 ?s' = CalBC1 (power_up fl)"
    by (simp_all add: power_up_def)
  have f: "\<forall>i < NFREQ. DCOCTL (set_frequency True i ?s') = fl (CalPos ! i) \<and>
         BCSCTL1 (set_frequency True i ?s') = fl (CalPos ! i + 1) \<and>
         flash (set_frequency True i ?s') = fl"
    by (simp add: set_frequency_def Let_def power_up_def)
  have r: "\<forall>env' k'. startClk32 (lfxt1of_start env') 0 = Some k' \<longrightarrow>
         main b env' (power_up (flash ?s')) = LoopFrequencies True ?s'"
    unfolding fl using m by blast
  show ?thesis
    using m [OF assms(1)] a fl f r by blast
qed

theorem boot_resumes_from_flash_witness:
  "\<exists>s'. main release (synthetic (\<lambda>c. 1000)) (power_up calibrated) = LoopFrequencies True s' \<and>
     applied s' = [] \<and> flash s' = calibrated \<and>
     DCOCTL (set_frequency True 0 s') = 0x4A \<and> BCSCTL1 (set_frequency True 0 s') = 0x84"
proof -
  have c: "startClk32 (lfxt1of_start (synthetic (\<lambda>c. 1000))) 0 = Some 1"
    by (subst startClk32.simps) (simp add: synthetic_def)
  have r: "\<not> FLASH_OVERRIDE release" "\<not> TEST_MODE release"
    by (simp_all add: release_def)
  have n: "\<exists>p \<in> set CalPos. calibrated p \<noteq> 0xFF \<or> calibrated (p + 1) \<noteq> 0xFF"
    by (simp add: CalPos_def calibrated_def)
  from boot_resumes_from_flash [OF c r n] obtain s'
    where "main release (synthetic (\<lambda>c. 1000)) (power_up calibrated) = LoopFrequencies True s'"
      and "applied s' = []" and "flash s' = calibrated"
      and "\<forall>i < NFREQ. DCOCTL (set_frequency True i s') = calibrated (CalPos ! i) \<and>
         BCSCTL1 (set_frequency True i s') = calibrated (CalPos ! i + 1) \<and>
         flash (set_frequency True i s') = calibrated"
    by blast
  then show ?thesis
    by (auto simp: NFREQ_def CalPos_def calibrated_def)
qed

section \<open>The retries for one goal\<close>

lemma missed_0:
  "missed env goal 0 s \<Longrightarrow>
     \<exists>s1. searchGoal env goal s = Some (0, s1) \<and>
       \<not> in_tolerance (percent_error (AveragedDifference s1) goal)"
  by (auto simp: missed_def split: option.splits)

lemma missed_Suc:
  "searchGoal env goal s = Some (r, s1) \<Longrightarrow> missed env goal (Suc n) s = missed env goal n s1"
  by (simp add: missed_def)

lemma hit_Suc:
  "searchGoal env goal s = Some (r, s1) \<Longrightarrow> hit env goal (Suc n) s = hit env goal n s1"
  by (simp add: hit_def)

lemma cycles_hit:
  "j + n < MAX_CYCLES \<Longrightarrow> hit env goal n s \<Longrightarrow> (\<forall>m < n. missed env goal m s) \<Longrightarrow>
     \<exists>t. attempt env goal n s = Some (0, t) \<and> cycles env goal j s = Inr (j + n, t)"
proof (induction n arbitrary: j s)
  case 0
  then obtain t where t: "searchGoal env goal s = Some (0, t)"
      "in_tolerance (percent_error (AveragedDifference t) goal)"
    by (auto simp: hit_def split: option.splits)
  from 0 have "j < MAX_CYCLES" by simp
  then have "cycles env goal j s = Inr (j, t)"
    by (subst cycles.simps) (simp add: t)
  then show ?case by (simp add: t)
next
  case (Suc n)
  from Suc.prems(3) have "missed env goal 0 s" by simp
  then obtain s1 where s1: "searchGoal env goal s = Some (0, s1)"
      "\<not> in_tolerance (percent_error (AveragedDifference s1) goal)"
    using missed_0 by blast
  have h: "hit env goal n s1"
    using Suc.prems(2) by (simp add: hit_Suc [OF s1(1)])
  have m: "\<forall>m < n. missed env goal m s1"
    using Suc.prems(3) missed_Suc [OF s1(1)] by auto
  have b: "Suc j + n < MAX_CYCLES" using Suc.prems(1) by simp
  from Suc.IH [OF b h m] obtain t
    where t: "attempt env goal n s1 = Some (0, t)" "cycles env goal (Suc j) s1 = Inr (Suc j + n, t)"
    by blast
  from Suc.prems(1) have "j < MAX_CYCLES" by simp
  then have "cycles env goal j s = cycles env goal (Suc j) s1"
    by (subst cycles.simps) (simp add: s1)
  then show ?case by (simp add: t s1)
qed

lemma cycles_missed:
  "j + Suc n = MAX_CYCLES \<Longrightarrow> (\<forall>m < Suc n. missed env goal m s) \<Longrightarrow>
     \<exists>t. attempt env goal n s = Some (0, t) \<and> cycles env goal j s = Inr (MAX_CYCLES, t)"
proof (induction n arbitrary: j s)
  case 0
  then have "missed env goal 0 s" by simp
  then obtain s1 where s1: "searchGoal env goal s = Some (0, s1)"
      "\<not> in_tolerance (percent_error (AveragedDifference s1) goal)"
    using missed_0 by blast
  from 0 have j: "j < MAX_CYCLES" "Suc j = MAX_CYCLES" by simp_all
  have "cycles env goal j s = cycles env goal (Suc j) s1"
    using j(1) by (subst cycles.simps) (simp add: s1)
  also have "\<dots> = Inr (MAX_CYCLES, s1)"
    using j(2) by (subst cycles.simps) simp
  finally show ?case by (simp add: s1)
next
  case (Suc n)
  from Suc.prems(2) have "missed env goal 0 s" by simp
  then obtain s1 where s1: "searchGoal env goal s = Some (0, s1)"
      "\<not> in_tolerance (percent_error (AveragedDifference s1) goal)"
    using missed_0 by blast
  have m: "\<forall>m < Suc n. missed env goal m s1"
    using Suc.prems(2) missed_Suc [OF s1(1)] by auto
  have b: "Suc j + Suc n = MAX_CYCLES" using Suc.prems(1) by simp
  from Suc.IH [OF b m] obtain t
    where t: "attempt env goal n s1 = Some (0, t)" "cycles env goal (Suc j) s1 = Inr (MAX_CYCLES, t)"
    by blast
  from Suc.prems(1) have "j < MAX_CYCLES" by simp
  then have "cycles env goal j s = cycles env goal (Suc j) s1"
    by (subst cycles.simps) (simp add: s1)
  then show ?case by (simp add: t s1)
qed

lemma cycles_bound:
  "cycles env goal j s = Inr (j', t) \<Longrightarrow> j \<le> MAX_CYCLES \<Longrightarrow> j \<le> j' \<and> j' \<le> MAX_CYCLES"
proof (induction env goal j s rule: cycles.induct)
  case (1 env goal j s)
  show ?case
  proof (cases "j < MAX_CYCLES")
    case False
    then show ?thesis using "1.prems" by (subst (asm) cycles.simps) simp
  next
    case True
    show ?thesis
    proof (cases "searchGoal env goal s")
      case None
      then show ?thesis using "1.prems" True by (subst (asm) cycles.simps) simp
    next
      case (Some a)
      obtain r s1 where a: "a = (r, s1)" by (cases a)
      show ?thesis
      proof (cases "r \<noteq> 0 \<or> in_tolerance (percent_error (AveragedDifference s1) goal)")
        case True
        then show ?thesis
          using "1.prems" \<open>j < MAX_CYCLES\<close> Some a
          by (subst (asm) cycles.simps) (auto split: if_splits)
      next
        case False
        then have c: "cycles env goal j s = cycles env goal (Suc j) s1"
          using \<open>j < MAX_CYCLES\<close> Some a by (subst cycles.simps) simp
        have "Suc j \<le> j' \<and> j' \<le> MAX_CYCLES"
          using "1.IH" [OF \<open>j < MAX_CYCLES\<close> Some a [symmetric]] False "1.prems" c
            \<open>j < MAX_CYCLES\<close>
          by simp
        then show ?thesis by simp
      qed
    qed
  qed
qed

section \<open>The scans of searchGoal\<close>

lemma setDCO_session:
  "complete env \<Longrightarrow>
   setDCO env r d m s =
     Some (session env (length (applied s)) (r, d, m) (s\<lparr>applied := applied s @ [(r, d, m)]\<rparr>))"
  using setDCO_complete [of env s r d m] by (simp add: complete_def session_def)

lemma session_fields [simp]:
  "AveragedDifference (session env k c s) = measured (captures env k c)"
  "rsel (session env k c s) = rsel s"
  "dco (session env k c s) = dco s"
  "modv (session env k c s) = modv s"
  "applied (session env k c s) = applied s"
  "flash (session env k c s) = flash s"
  "FCTL3 (session env k c s) = FCTL3 s"
  "CalDCO (session env k c s) = CalDCO s"
  "CalBC1 (session env k c s) = CalBC1 s"
  "DCOCTL (session env k c s) = of_nat (fst (snd c)) * DCO0 + of_nat (snd (snd c))"
  "BCSCTL1 (session env k c s) = XT2OFF + of_nat (fst c)"
  by (simp_all add: session_def)

lemma session_session [simp]: "session env k c (session env k' c' s) = session env k c s"
  by (simp add: session_def)

lemma session_update [simp]:
  "session env k c (s\<lparr>rsel := r\<rparr>) = (session env k c s)\<lparr>rsel := r\<rparr>"
  "session env k c (s\<lparr>dco := d\<rparr>) = (session env k c s)\<lparr>dco := d\<rparr>"
  "session env k c (s\<lparr>modv := m\<rparr>) = (session env k c s)\<lparr>modv := m\<rparr>"
  "session env k c (s\<lparr>applied := a\<rparr>) = (session env k c s)\<lparr>applied := a\<rparr>"
  by (simp_all add: session_def)

lemma map_upt_shift:
  "map f [0..<Suc n] = f 0 # map (\<lambda>i. f (Suc i)) [0..<n]"
  by (simp add: upt_conv_Cons map_Suc_upt [symmetric] del: upt_Suc)

lemma rsel_loop_break:
  assumes c: "complete env"
  shows "r0 + n < 16 \<Longrightarrow>
     goal < measured (captures env (length (applied s) + n) (r0 + n, 3, 0)) \<Longrightarrow>
     (\<forall>i < n. \<not> goal < measured (captures env (length (applied s) + i) (r0 + i, 3, 0))) \<Longrightarrow>
     rsel_loop env goal r0 prev s =
       Some (if n = 0 then prev
             else measured (captures env (length (applied s) + (n - 1)) (r0 + (n - 1), 3, 0)),
         (session env (length (applied s) + n) (r0 + n, 3, 0) s)
           \<lparr>rsel := r0 + n, applied := applied s @ map (\<lambda>i. (r0 + i, 3, 0)) [0..<Suc n]\<rparr>)"
proof (induction n arbitrary: r0 prev s)
  case 0
  then show ?case
    by (subst rsel_loop.simps) (simp add: setDCO_session [OF c])
next
  case (Suc n)
  let ?s1 = "(session env (length (applied s)) (r0, 3, 0) s)
      \<lparr>rsel := r0, applied := applied s @ [(r0, 3, 0)]\<rparr>"
  have first: "\<not> goal < measured (captures env (length (applied s)) (r0, 3, 0))"
    using Suc.prems(3) by (metis add.right_neutral zero_less_Suc)
  have step: "rsel_loop env goal r0 prev s =
      rsel_loop env goal (Suc r0) (measured (captures env (length (applied s)) (r0, 3, 0))) ?s1"
    using Suc.prems(1) first
    by (subst rsel_loop.simps) (simp add: setDCO_session [OF c])
  have a: "Suc r0 + n < 16" using Suc.prems(1) by simp
  have b: "goal < measured (captures env (length (applied ?s1) + n) (Suc r0 + n, 3, 0))"
    using Suc.prems(2) by simp
  have d: "\<forall>i < n. \<not> goal < measured (captures env (length (applied ?s1) + i) (Suc r0 + i, 3, 0))"
    using Suc.prems(3) by auto
  show ?case
    unfolding step
    apply (subst Suc.IH [OF a b d])
    apply (simp add: map_upt_shift [of "\<lambda>i. (r0 + i, 3, 0)" "Suc n"] del: upt_Suc)
    done
qed


lemma rsel_loop_exhaust:
  assumes c: "complete env"
  shows "r0 + n = 16 \<Longrightarrow>
     (\<forall>i < n. \<not> goal < measured (captures env (length (applied s) + i) (r0 + i, 3, 0))) \<Longrightarrow>
     rsel_loop env goal r0 prev s =
       Some (if n = 0 then prev
             else measured (captures env (length (applied s) + (n - 1)) (r0 + (n - 1), 3, 0)),
         (if n = 0 then s else session env (length (applied s) + (n - 1)) (r0 + (n - 1), 3, 0) s)
           \<lparr>rsel := 16, applied := applied s @ map (\<lambda>i. (r0 + i, 3, 0)) [0..<n]\<rparr>)"
proof (induction n arbitrary: r0 prev s)
  case 0
  then show ?case
    by (subst rsel_loop.simps) simp
next
  case (Suc n)
  let ?s1 = "(session env (length (applied s)) (r0, 3, 0) s)
      \<lparr>rsel := r0, applied := applied s @ [(r0, 3, 0)]\<rparr>"
  have first: "\<not> goal < measured (captures env (length (applied s)) (r0, 3, 0))"
    using Suc.prems(2) by (metis add.right_neutral zero_less_Suc)
  have step: "rsel_loop env goal r0 prev s =
      rsel_loop env goal (Suc r0) (measured (captures env (length (applied s)) (r0, 3, 0))) ?s1"
    using Suc.prems(1) first
    by (subst rsel_loop.simps) (simp add: setDCO_session [OF c])
  have a: "Suc r0 + n = 16" using Suc.prems(1) by simp
  have d: "\<forall>i < n. \<not> goal < measured (captures env (length (applied ?s1) + i) (Suc r0 + i, 3, 0))"
    using Suc.prems(2) by auto
  show ?case
    unfolding step
    apply (subst Suc.IH [OF a d])
    apply (cases n)
     apply (simp_all add: map_upt_shift [of "\<lambda>i. (r0 + i, 3, 0)"] del: upt_Suc)
    done
qed

lemma dco_loop_break:
  assumes c: "complete env"
  shows "d0 + n < 8 \<Longrightarrow>
     goal < measured (captures env (length (applied s) + n) (rsel s, d0 + n, 0)) \<Longrightarrow>
     (\<forall>i < n. \<not> goal < measured (captures env (length (applied s) + i) (rsel s, d0 + i, 0))) \<Longrightarrow>
     dco_loop env goal d0 s =
       Some ((session env (length (applied s) + n) (rsel s, d0 + n, 0) s)
           \<lparr>dco := d0 + n, applied := applied s @ map (\<lambda>i. (rsel s, d0 + i, 0)) [0..<Suc n]\<rparr>)"
proof (induction n arbitrary: d0 s)
  case 0
  then show ?case
    by (subst dco_loop.simps) (simp add: setDCO_session [OF c])
next
  case (Suc n)
  let ?s1 = "(session env (length (applied s)) (rsel s, d0, 0) s)
      \<lparr>dco := d0, applied := applied s @ [(rsel s, d0, 0)]\<rparr>"
  have first: "\<not> goal < measured (captures env (length (applied s)) (rsel s, d0, 0))"
    using Suc.prems(3) by (metis add.right_neutral zero_less_Suc)
  have step: "dco_loop env goal d0 s = dco_loop env goal (Suc d0) ?s1"
    using Suc.prems(1) first
    by (subst dco_loop.simps) (simp add: setDCO_session [OF c])
  have a: "Suc d0 + n < 8" using Suc.prems(1) by simp
  have b: "goal < measured (captures env (length (applied ?s1) + n) (rsel ?s1, Suc d0 + n, 0))"
    using Suc.prems(2) by simp
  have d: "\<forall>i < n. \<not> goal < measured (captures env (length (applied ?s1) + i) (rsel ?s1, Suc d0 + i, 0))"
    using Suc.prems(3) by auto
  show ?case
    unfolding step
    apply (subst Suc.IH [OF a b d])
    apply (simp add: map_upt_shift [of "\<lambda>i. (rsel s, d0 + i, 0)" "Suc n"] del: upt_Suc)
    done
qed

lemma dco_loop_exhaust:
  assumes c: "complete env"
  shows "d0 + n = 8 \<Longrightarrow>
     (\<forall>i < n. \<not> goal < measured (captures env (length (applied s) + i) (rsel s, d0 + i, 0))) \<Longrightarrow>
     dco_loop env goal d0 s =
       Some ((if n = 0 then s else session env (length (applied s) + (n - 1)) (rsel s, d0 + (n - 1), 0) s)
           \<lparr>dco := 8, applied := applied s @ map (\<lambda>i. (rsel s, d0 + i, 0)) [0..<n]\<rparr>)"
proof (induction n arbitrary: d0 s)
  case 0
  then show ?case
    by (subst dco_loop.simps) simp
next
  case (Suc n)
  let ?s1 = "(session env (length (applied s)) (rsel s, d0, 0) s)
      \<lparr>dco := d0, applied := applied s @ [(rsel s, d0, 0)]\<rparr>"
  have first: "\<not> goal < measured (captures env (length (applied s)) (rsel s, d0, 0))"
    using Suc.prems(2) by (metis add.right_neutral zero_less_Suc)
  have step: "dco_loop env goal d0 s = dco_loop env goal (Suc d0) ?s1"
    using Suc.prems(1) first
    by (subst dco_loop.simps) (simp add: setDCO_session [OF c])
  have a: "Suc d0 + n = 8" using Suc.prems(1) by simp
  have d: "\<forall>i < n. \<not> goal < measured (captures env (length (applied ?s1) + i) (rsel ?s1, Suc d0 + i, 0))"
    using Suc.prems(2) by auto
  show ?case
    unfolding step
    apply (subst Suc.IH [OF a d])
    apply (cases n)
     apply (simp_all add: map_upt_shift [of "\<lambda>i. (rsel s, d0 + i, 0)"] del: upt_Suc)
    done
qed

lemma mod_loop_break:
  assumes c: "complete env"
  shows "m0 + n < 32 \<Longrightarrow>
     goal < measured (captures env (length (applied s) + n) (rsel s, dco s, m0 + n)) \<Longrightarrow>
     (\<forall>i < n. \<not> goal < measured (captures env (length (applied s) + i) (rsel s, dco s, m0 + i))) \<Longrightarrow>
     mod_loop env goal m0 prev s =
       Some (if n = 0 then prev
             else measured (captures env (length (applied s) + (n - 1)) (rsel s, dco s, m0 + (n - 1))),
         (session env (length (applied s) + n) (rsel s, dco s, m0 + n) s)
           \<lparr>modv := m0 + n, applied := applied s @ map (\<lambda>i. (rsel s, dco s, m0 + i)) [0..<Suc n]\<rparr>)"
proof (induction n arbitrary: m0 prev s)
  case 0
  then show ?case
    by (subst mod_loop.simps) (simp add: setDCO_session [OF c])
next
  case (Suc n)
  let ?s1 = "(session env (length (applied s)) (rsel s, dco s, m0) s)
      \<lparr>modv := m0, applied := applied s @ [(rsel s, dco s, m0)]\<rparr>"
  have first: "\<not> goal < measured (captures env (length (applied s)) (rsel s, dco s, m0))"
    using Suc.prems(3) by (metis add.right_neutral zero_less_Suc)
  have step: "mod_loop env goal m0 prev s =
      mod_loop env goal (Suc m0) (measured (captures env (length (applied s)) (rsel s, dco s, m0))) ?s1"
    using Suc.prems(1) first
    by (subst mod_loop.simps) (simp add: setDCO_session [OF c])
  have a: "Suc m0 + n < 32" using Suc.prems(1) by simp
  have b: "goal < measured (captures env (length (applied ?s1) + n) (rsel ?s1, dco ?s1, Suc m0 + n))"
    using Suc.prems(2) by simp
  have d: "\<forall>i < n. \<not> goal < measured (captures env (length (applied ?s1) + i) (rsel ?s1, dco ?s1, Suc m0 + i))"
    using Suc.prems(3) by auto
  show ?case
    unfolding step
    apply (subst Suc.IH [OF a b d])
    apply (simp add: map_upt_shift [of "\<lambda>i. (rsel s, dco s, m0 + i)" "Suc n"] del: upt_Suc)
    done
qed

lemma mod_loop_exhaust:
  assumes c: "complete env"
  shows "m0 + n = 32 \<Longrightarrow>
     (\<forall>i < n. \<not> goal < measured (captures env (length (applied s) + i) (rsel s, dco s, m0 + i))) \<Longrightarrow>
     mod_loop env goal m0 prev s =
       Some (if n = 0 then prev
             else measured (captures env (length (applied s) + (n - 1)) (rsel s, dco s, m0 + (n - 1))),
         (if n = 0 then s
          else session env (length (applied s) + (n - 1)) (rsel s, dco s, m0 + (n - 1)) s)
           \<lparr>modv := 32, applied := applied s @ map (\<lambda>i. (rsel s, dco s, m0 + i)) [0..<n]\<rparr>)"
proof (induction n arbitrary: m0 prev s)
  case 0
  then show ?case
    by (subst mod_loop.simps) simp
next
  case (Suc n)
  let ?s1 = "(session env (length (applied s)) (rsel s, dco s, m0) s)
      \<lparr>modv := m0, applied := applied s @ [(rsel s, dco s, m0)]\<rparr>"
  have first: "\<not> goal < measured (captures env (length (applied s)) (rsel s, dco s, m0))"
    using Suc.prems(2) by (metis add.right_neutral zero_less_Suc)
  have step: "mod_loop env goal m0 prev s =
      mod_loop env goal (Suc m0) (measured (captures env (length (applied s)) (rsel s, dco s, m0))) ?s1"
    using Suc.prems(1) first
    by (subst mod_loop.simps) (simp add: setDCO_session [OF c])
  have a: "Suc m0 + n = 32" using Suc.prems(1) by simp
  have d: "\<forall>i < n. \<not> goal < measured (captures env (length (applied ?s1) + i) (rsel ?s1, dco ?s1, Suc m0 + i))"
    using Suc.prems(2) by auto
  show ?case
    unfolding step
    apply (subst Suc.IH [OF a d])
    apply (cases n)
     apply (simp_all add: map_upt_shift [of "\<lambda>i. (rsel s, dco s, m0 + i)"] del: upt_Suc)
    done
qed

lemma first_or_none:
  "(\<forall>n < (N :: nat). \<not> P n) \<or> (\<exists>n < N. P n \<and> (\<forall>i < n. \<not> P i))"
proof (induction N)
  case 0
  then show ?case by simp
next
  case (Suc N)
  then show ?case
  proof
    assume a: "\<forall>n < N. \<not> P n"
    show ?thesis
    proof (cases "P N")
      case True
      with a have "N < Suc N \<and> P N \<and> (\<forall>i < N. \<not> P i)" by simp
      then show ?thesis by blast
    next
      case False
      with a have "\<forall>n < Suc N. \<not> P n" by (simp add: less_Suc_eq)
      then show ?thesis by blast
    qed
  next
    assume "\<exists>n < N. P n \<and> (\<forall>i < n. \<not> P i)"
    then obtain n where "n < N" "P n" "\<forall>i < n. \<not> P i" by blast
    then have "n < Suc N \<and> P n \<and> (\<forall>i < n. \<not> P i)" by simp
    then show ?thesis by blast
  qed
qed

section \<open>The range scan\<close>

lemma word_diff_less:
  "\<not> g < a \<Longrightarrow> g < b \<Longrightarrow>
     (g - a < b - g) = (unat g - unat a < unat b - unat (g :: 16 word))"
  by (simp add: word_less_nat_alt unat_sub word_le_nat_alt not_less)

lemma range_scan_break:
  assumes c: "complete env"
    and r: "r < 16"
    and over: "goal < measured (captures env (length (applied s) + r) (r, 3, 0))"
    and before: "\<forall>i < r. \<not> goal < measured (captures env (length (applied s) + i) (i, 3, 0))"
  shows "range_scan env goal s =
    Some (if r = 0 then prev_init env
          else measured (captures env (length (applied s) + (r - 1)) (r - 1, 3, 0)),
      (session env (length (applied s) + r) (r, 3, 0) s)
        \<lparr>rsel := (if r \<noteq> 0 \<and>
                    unat goal - unat (measured (captures env (length (applied s) + (r - 1)) (r - 1, 3, 0)))
                    < unat (measured (captures env (length (applied s) + r) (r, 3, 0))) - unat goal
                  then r - 1 else r),
          applied := applied s @ map (\<lambda>i. (i, 3, 0)) [0..<Suc r]\<rparr>)"
proof -
  have l: "rsel_loop env goal 0 (prev_init env) s =
       Some (if r = 0 then prev_init env
             else measured (captures env (length (applied s) + (r - 1)) (r - 1, 3, 0)),
         (session env (length (applied s) + r) (r, 3, 0) s)
           \<lparr>rsel := r, applied := applied s @ map (\<lambda>i. (i, 3, 0)) [0..<Suc r]\<rparr>)"
    using rsel_loop_break [OF c, of 0 r goal s "prev_init env"] r over before
    by (simp del: upt_Suc)
  show ?thesis
  proof (cases "r = 0")
    case True
    then show ?thesis
      using l by (simp add: range_scan_def)
  next
    case False
    then have "r - 1 < r" by simp
    with before have "\<not> goal < measured (captures env (length (applied s) + (r - 1)) (r - 1, 3, 0))"
      by blast
    from word_diff_less [OF this over] show ?thesis
      using l r False by (simp add: range_scan_def del: upt_Suc)
  qed
qed

lemma range_scan_exhaust:
  assumes c: "complete env"
    and none: "\<forall>r < 16. \<not> goal < measured (captures env (length (applied s) + r) (r, 3, 0))"
  shows "range_scan env goal s =
    Some (measured (captures env (length (applied s) + 15) (15, 3, 0)),
      (session env (length (applied s) + 15) (15, 3, 0) s)
        \<lparr>rsel := 15, applied := applied s @ map (\<lambda>i. (i, 3, 0)) [0..<16]\<rparr>)"
proof -
  have "rsel_loop env goal 0 (prev_init env) s =
     Some (measured (captures env (length (applied s) + 15) (15, 3, 0)),
       (session env (length (applied s) + 15) (15, 3, 0) s)
         \<lparr>rsel := 16, applied := applied s @ map (\<lambda>i. (i, 3, 0)) [0..<16]\<rparr>)"
    using rsel_loop_exhaust [OF c, of 0 16 goal s "prev_init env"] none
    by (simp del: upt_Suc)
  then show ?thesis
    by (simp add: range_scan_def del: upt_Suc)
qed

lemma range_scan_returns:
  assumes c: "complete env"
  shows "\<exists>p s1. range_scan env goal s = Some (p, s1)"
proof -
  let ?P = "\<lambda>r. goal < measured (captures env (length (applied s) + r) (r, 3, 0))"
  from first_or_none [of 16 ?P] show ?thesis
  proof
    assume "\<forall>r < 16. \<not> ?P r"
    from range_scan_exhaust [OF c this] show ?thesis by blast
  next
    assume "\<exists>r < 16. ?P r \<and> (\<forall>i < r. \<not> ?P i)"
    then obtain r where "r < 16" "?P r" "\<forall>i < r. \<not> ?P i" by blast
    from range_scan_break [OF c this] show ?thesis by blast
  qed
qed

text \<open>
  Claim C1. Every session completing, let \<open>M r\<close> be the measurement of the session
  that the scan runs for the range \<open>r\<close> (at step 3, modulation 0). If \<open>r\<close> is the
  first range in 0..15 with \<open>M r\<close> above the goal, the scan has run the sessions for
  the ranges 0..r and no more, and the range chosen is \<open>r - 1\<close> when \<open>r\<close> is not 0
  and goal minus \<open>M (r - 1)\<close> is strictly smaller than \<open>M r\<close> minus goal, and
  \<open>r\<close> otherwise. If no range in 0..15 measures above the goal, all 16 sessions
  have run and the range chosen is 15.
\<close>

theorem range_scan_choice:
  assumes c: "complete env"
  shows "let M = (\<lambda>r. measured (captures env (length (applied s) + r) (r, 3, 0))) in
    (\<forall>r < 16. goal < M r \<and> (\<forall>i < r. \<not> goal < M i) \<longrightarrow>
       (\<exists>p s'. range_scan env goal s = Some (p, s') \<and>
          rsel s' = (if r \<noteq> 0 \<and> unat goal - unat (M (r - 1)) < unat (M r) - unat goal
                     then r - 1 else r) \<and>
          applied s' = applied s @ map (\<lambda>i. (i, 3, 0)) [0..<Suc r])) \<and>
    ((\<forall>r < 16. \<not> goal < M r) \<longrightarrow>
       (\<exists>p s'. range_scan env goal s = Some (p, s') \<and> rsel s' = 15 \<and>
          applied s' = applied s @ map (\<lambda>i. (i, 3, 0)) [0..<16]))"
proof -
  define M where "M = (\<lambda>r. measured (captures env (length (applied s) + r) (r, 3, 0)))"
  have brk: "\<exists>p s'. range_scan env goal s = Some (p, s') \<and>
          rsel s' = (if r \<noteq> 0 \<and> unat goal - unat (M (r - 1)) < unat (M r) - unat goal
                     then r - 1 else r) \<and>
          applied s' = applied s @ map (\<lambda>i. (i, 3, 0)) [0..<Suc r]"
    if "r < 16" "goal < M r" "\<forall>i < r. \<not> goal < M i" for r
    using range_scan_break [OF c, of r goal s] that
    by (simp add: M_def del: upt_Suc)
  have exh: "\<exists>p s'. range_scan env goal s = Some (p, s') \<and> rsel s' = 15 \<and>
          applied s' = applied s @ map (\<lambda>i. (i, 3, 0)) [0..<16]"
    if "\<forall>r < 16. \<not> goal < M r"
    using range_scan_exhaust [OF c, of goal s] that
    by (simp add: M_def del: upt_Suc)
  show ?thesis
    unfolding Let_def M_def [symmetric] using brk exh by blast
qed

lemma bench_measured:
  "r < 16 \<Longrightarrow> d < 8 \<Longrightarrow> m < 32 \<Longrightarrow>
     measured (captures (synthetic bench) k (r, d, m)) = of_nat ((600 + 100 * d + 3 * m) * (r + 1))"
proof -
  assume a: "r < 16" "d < 8" "m < 32"
  then have "600 + 100 * d + 3 * m < 1400" by simp
  moreover have "r + 1 \<le> 16" using a by simp
  ultimately have "(600 + 100 * d + 3 * m) * (r + 1) < 1400 * 16"
    by (meson mult_less_le_imp_less zero_less_Suc less_imp_le_nat mult_strict_mono' le0 add_gr_0 zero_less_one)
  then have "bench (r, d, m) < 65536" by (simp add: bench_def)
  from synthetic_measured [of bench "(r, d, m)" k, OF this] show ?thesis by (simp add: bench_def)
qed

theorem range_scan_choice_witness:
  "\<exists>p s'. range_scan (synthetic bench) 977 (power_up erased) = Some (p, s') \<and> rsel s' = 0 \<and>
     applied s' = [(0, 3, 0), (1, 3, 0)]"
proof -
  have m0: "measured (captures (synthetic bench) 0 (0, 3, 0)) = 900"
    by (simp add: bench_measured)
  have m1: "measured (captures (synthetic bench) (Suc 0) (Suc 0, 3, 0)) = 1800"
    by (simp add: bench_measured)
  have a: "length (applied (power_up erased)) = 0" "applied (power_up erased) = []"
    by (simp_all add: power_up_def)
  from range_scan_choice [where env = "synthetic bench" and s = "power_up erased" and goal = 977,
      OF synthetic_complete]
  show ?thesis
    unfolding Let_def a
    apply (elim conjE)
    apply (drule spec [of _ 1])
    apply (simp add: m0 m1)
    done
qed

section \<open>The modulation scan and the special case\<close>

lemma modulation_scan_break:
  assumes c: "complete env"
    and n: "n < 32"
    and over: "goal < measured (captures env (length (applied s) + n) (rsel s, dco s, n))"
    and before: "\<forall>i < n. \<not> goal < measured (captures env (length (applied s) + i) (rsel s, dco s, i))"
  shows "modulation_scan env goal prev s =
    Some ((session env (length (applied s) + n) (rsel s, dco s, n) s)
      \<lparr>modv := (if n \<noteq> 0 \<and>
                   unat goal - unat (measured (captures env (length (applied s) + (n - 1)) (rsel s, dco s, n - 1)))
                   < unat (measured (captures env (length (applied s) + n) (rsel s, dco s, n))) - unat goal
                 then n - 1 else n),
        applied := applied s @ map (\<lambda>m. (rsel s, dco s, m)) [0..<Suc n]\<rparr>)"
proof -
  have l: "mod_loop env goal 0 prev s =
       Some (if n = 0 then prev
             else measured (captures env (length (applied s) + (n - 1)) (rsel s, dco s, n - 1)),
         (session env (length (applied s) + n) (rsel s, dco s, n) s)
           \<lparr>modv := n, applied := applied s @ map (\<lambda>m. (rsel s, dco s, m)) [0..<Suc n]\<rparr>)"
    using mod_loop_break [OF c, of 0 n goal s prev] n over before
    by (simp del: upt_Suc)
  show ?thesis
  proof (cases "n = 0")
    case True
    then show ?thesis using l by (simp add: modulation_scan_def)
  next
    case False
    then have "n - 1 < n" by simp
    with before have "\<not> goal < measured (captures env (length (applied s) + (n - 1)) (rsel s, dco s, n - 1))"
      by blast
    from word_diff_less [OF this over] show ?thesis
      using l n False by (simp add: modulation_scan_def del: upt_Suc)
  qed
qed

lemma modulation_scan_exhaust:
  assumes c: "complete env"
    and none: "\<forall>i < 32. \<not> goal < measured (captures env (length (applied s) + i) (rsel s, dco s, i))"
  shows "modulation_scan env goal prev s =
    Some ((session env (length (applied s) + 31) (rsel s, dco s, 31) s)
      \<lparr>modv := 31, applied := applied s @ map (\<lambda>m. (rsel s, dco s, m)) [0..<32]\<rparr>)"
proof -
  have "mod_loop env goal 0 prev s =
       Some (measured (captures env (length (applied s) + 31) (rsel s, dco s, 31)),
         (session env (length (applied s) + 31) (rsel s, dco s, 31) s)
           \<lparr>modv := 32, applied := applied s @ map (\<lambda>m. (rsel s, dco s, m)) [0..<32]\<rparr>)"
    using mod_loop_exhaust [OF c, of 0 32 goal s prev] none
    by (simp del: upt_Suc)
  then show ?thesis
    by (simp add: modulation_scan_def del: upt_Suc)
qed

section \<open>searchGoal as a whole\<close>

lemma modulation_scan_shape:
  assumes c: "complete env"
  shows "\<exists>s4 w. modulation_scan env goal prev s = Some s4 \<and> 0 < w \<and> w \<le> 32 \<and>
     applied s4 = applied s @ map (\<lambda>m. (rsel s, dco s, m)) [0..<w] \<and>
     rsel s4 = rsel s \<and> dco s4 = dco s \<and> modv s4 < 32"
proof -
  let ?P = "\<lambda>m. goal < measured (captures env (length (applied s) + m) (rsel s, dco s, m))"
  from first_or_none [of 32 ?P] show ?thesis
  proof
    assume "\<forall>n < 32. \<not> ?P n"
    from modulation_scan_exhaust [OF c this, of prev] show ?thesis
      by (intro exI conjI) (assumption, simp_all del: upt_Suc)
  next
    assume "\<exists>n < 32. ?P n \<and> (\<forall>i < n. \<not> ?P i)"
    then obtain n where n: "n < 32" "?P n" "\<forall>i < n. \<not> ?P i" by blast
    from modulation_scan_break [OF c n, of prev] n(1) show ?thesis
      by (intro exI conjI) (assumption, auto simp del: upt_Suc)
  qed
qed

lemma special_case_shape:
  "rsel (special_case goal m0diff s) = rsel s \<and>
   applied (special_case goal m0diff s) = applied s \<and>
   (dco (special_case goal m0diff s) = dco s \<and> modv (special_case goal m0diff s) = modv s \<or>
    dco (special_case goal m0diff s) = dco s + 1 \<and> modv (special_case goal m0diff s) = 0)"
  by (simp add: special_case_def)

lemma searchGoal_exhausted:
  assumes c: "complete env"
    and rs: "range_scan env goal s = Some (p, s1)"
    and none: "\<forall>d < 8. \<not> goal < measured (captures env (length (applied s1) + d) (rsel s1, d, 0))"
  shows "searchGoal env goal s =
    Some (1, (session env (length (applied s1) + 7) (rsel s1, 7, 0) s1)
      \<lparr>dco := 8, applied := applied s1 @ map (\<lambda>i. (rsel s1, i, 0)) [0..<8]\<rparr>)"
  using dco_loop_exhaust [OF c, of 0 8 goal s1] none rs
  by (simp add: searchGoal_def del: upt_Suc)

lemma searchGoal_at_zero:
  assumes c: "complete env"
    and rs: "range_scan env goal s = Some (p, s1)"
    and over: "goal < measured (captures env (length (applied s1)) (rsel s1, 0, 0))"
  shows "searchGoal env goal s =
    Some (1, (session env (length (applied s1)) (rsel s1, 0, 0) s1)
      \<lparr>dco := 0, applied := applied s1 @ [(rsel s1, 0, 0)]\<rparr>)"
  using dco_loop_break [OF c, of 0 0 goal s1] over rs
  by (simp add: searchGoal_def)

lemma searchGoal_found:
  assumes c: "complete env"
    and rs: "range_scan env goal s = Some (p, s1)"
    and d: "0 < d" "d < 8"
    and over: "goal < measured (captures env (length (applied s1) + d) (rsel s1, d, 0))"
    and before: "\<forall>i < d. \<not> goal < measured (captures env (length (applied s1) + i) (rsel s1, i, 0))"
    and ms: "modulation_scan env goal p
       ((session env (length (applied s1) + d) (rsel s1, d, 0) s1)
          \<lparr>applied := applied s1 @ map (\<lambda>i. (rsel s1, i, 0)) [0..<Suc d], dco := d - 1\<rparr>) = Some s4"
    and sc: "s5 = special_case goal
       (measured (captures env (length (applied s1) + d) (rsel s1, d, 0)) - goal) s4"
  shows "searchGoal env goal s =
    Some (0, (session env (length (applied s5)) (rsel s5, dco s5, modv s5) s5)
      \<lparr>applied := applied s5 @ [(rsel s5, dco s5, modv s5)]\<rparr>)"
  using dco_loop_break [OF c, of 0 d goal s1] d over before rs ms sc
  by (simp add: searchGoal_def Let_def setDCO_session [OF c] del: upt_Suc)

lemma searchGoal_found_shape:
  assumes c: "complete env"
    and rs: "range_scan env goal s = Some (p, s1)"
    and d: "0 < d" "d < 8"
    and over: "goal < measured (captures env (length (applied s1) + d) (rsel s1, d, 0))"
    and before: "\<forall>i < d. \<not> goal < measured (captures env (length (applied s1) + i) (rsel s1, i, 0))"
  shows "\<exists>s' w. searchGoal env goal s = Some (0, s') \<and> 0 < w \<and> w \<le> 32 \<and>
     applied s' = applied s1 @ map (\<lambda>i. (rsel s1, i, 0)) [0..<Suc d] @
        map (\<lambda>m. (rsel s1, d - 1, m)) [0..<w] @ [(rsel s', dco s', modv s')] \<and>
     rsel s' = rsel s1 \<and> (dco s' = d - 1 \<or> dco s' = d \<and> modv s' = 0)"
proof -
  let ?s3 = "(session env (length (applied s1) + d) (rsel s1, d, 0) s1)
          \<lparr>applied := applied s1 @ map (\<lambda>i. (rsel s1, i, 0)) [0..<Suc d], dco := d - 1\<rparr>"
  from modulation_scan_shape [OF c, of goal p ?s3] obtain s4 w
    where s4: "modulation_scan env goal p ?s3 = Some s4" "0 < w" "w \<le> 32"
      "applied s4 = applied ?s3 @ map (\<lambda>m. (rsel ?s3, dco ?s3, m)) [0..<w]"
      "rsel s4 = rsel ?s3" "dco s4 = dco ?s3"
    by blast
  define s5 where "s5 = special_case goal
       (measured (captures env (length (applied s1) + d) (rsel s1, d, 0)) - goal) s4"
  note f = searchGoal_found [OF c rs d over before s4(1) s5_def]
  have sh: "rsel s5 = rsel s4" "applied s5 = applied s4"
    "dco s5 = dco s4 \<or> dco s5 = dco s4 + 1 \<and> modv s5 = 0"
    using special_case_shape [of goal _ s4] unfolding s5_def by auto
  show ?thesis
    apply (rule exI, rule exI [of _ w])
    apply (intro conjI)
          apply (rule f)
    using s4 sh d
         apply (simp_all del: upt_Suc)
    done
qed

text \<open>
  Claim C2. Every session completing and the range scan having chosen its range, let
  \<open>D d\<close> be the measurement of the session that the step scan runs for the step
  \<open>d\<close> (at the chosen range, modulation 0). \<open>searchGoal\<close> returns 1 exactly when no
  step in 0..7 measures above the goal or the step 0 does; it returns 0 in every
  other case. When the first step above the goal is \<open>d > 0\<close>, the sessions that
  follow the step scan are those of the modulation scan at step \<open>d - 1\<close>, for the
  modulations 0 up to some \<open>w - 1\<close>, and the final one.
\<close>

theorem step_scan_decides:
  assumes c: "complete env" and rs: "range_scan env goal s = Some (p, s1)"
  shows "let D = (\<lambda>d. measured (captures env (length (applied s1) + d) (rsel s1, d, 0))) in
    ((\<exists>s'. searchGoal env goal s = Some (1, s')) = ((\<forall>d < 8. \<not> goal < D d) \<or> goal < D 0)) \<and>
    ((\<exists>s'. searchGoal env goal s = Some (0, s')) = (\<not> ((\<forall>d < 8. \<not> goal < D d) \<or> goal < D 0))) \<and>
    (\<forall>d < 8. 0 < d \<and> goal < D d \<and> (\<forall>i < d. \<not> goal < D i) \<longrightarrow>
      (\<exists>s' w. searchGoal env goal s = Some (0, s') \<and> 0 < w \<and> w \<le> 32 \<and>
         applied s' = applied s1 @ map (\<lambda>i. (rsel s1, i, 0)) [0..<Suc d] @
            map (\<lambda>m. (rsel s1, d - 1, m)) [0..<w] @ [(rsel s', dco s', modv s')] \<and>
         rsel s' = rsel s1 \<and> (dco s' = d - 1 \<or> dco s' = d \<and> modv s' = 0)))"
proof -
  define D where "D = (\<lambda>d. measured (captures env (length (applied s1) + d) (rsel s1, d, 0)))"
  have none: "\<exists>s'. searchGoal env goal s = Some (1, s')" if "\<forall>d < 8. \<not> goal < D d"
    using searchGoal_exhausted [OF c rs] that unfolding D_def by blast
  have zero: "\<exists>s'. searchGoal env goal s = Some (1, s')" if "goal < D 0"
    using searchGoal_at_zero [OF c rs] that unfolding D_def by simp
  have found: "\<exists>s' w. searchGoal env goal s = Some (0, s') \<and> 0 < w \<and> w \<le> 32 \<and>
         applied s' = applied s1 @ map (\<lambda>i. (rsel s1, i, 0)) [0..<Suc d] @
            map (\<lambda>m. (rsel s1, d - 1, m)) [0..<w] @ [(rsel s', dco s', modv s')] \<and>
         rsel s' = rsel s1 \<and> (dco s' = d - 1 \<or> dco s' = d \<and> modv s' = 0)"
    if "d < 8" "0 < d" "goal < D d" "\<forall>i < d. \<not> goal < D i" for d
    using searchGoal_found_shape [OF c rs that(2) that(1)] that(3,4) unfolding D_def by blast
  have other: "\<exists>s'. searchGoal env goal s = Some (0, s')"
    if n: "\<not> ((\<forall>d < 8. \<not> goal < D d) \<or> goal < D 0)"
  proof -
    from first_or_none [of 8 "\<lambda>d. goal < D d"] n
    obtain d where d: "d < 8" "goal < D d" "\<forall>i < d. \<not> goal < D i" by blast
    with n have "0 < d" by (cases d) auto
    from found [OF d(1) this d(2,3)] show ?thesis by blast
  qed
  have one: "(\<exists>s'. searchGoal env goal s = Some (1, s')) = ((\<forall>d < 8. \<not> goal < D d) \<or> goal < D 0)"
    using none zero other by (metis option.inject prod.inject zero_neq_one)
  have nought: "(\<exists>s'. searchGoal env goal s = Some (0, s')) = (\<not> ((\<forall>d < 8. \<not> goal < D d) \<or> goal < D 0))"
    using none zero other by (metis option.inject prod.inject zero_neq_one)
  show ?thesis
    unfolding Let_def D_def [symmetric] using one nought found by blast
qed

lemma synthetic_less:
  "f c < 65536 \<Longrightarrow> (g < measured (captures (synthetic f) k c)) = (unat g < f c)"
  by (simp add: synthetic_measured word_less_nat_alt unat_of_nat take_bit_nat_eq_self)

lemma bench_bound: "r < 16 \<Longrightarrow> d < 8 \<Longrightarrow> m < 32 \<Longrightarrow> bench (r, d, m) < 65536"
proof -
  assume a: "r < 16" "d < 8" "m < 32"
  then have "600 + 100 * d + 3 * m \<le> 1400" by simp
  moreover have "r + 1 \<le> 16" using a by simp
  ultimately have "(600 + 100 * d + 3 * m) * (r + 1) \<le> 1400 * 16"
    by (rule mult_le_mono)
  then show ?thesis by (simp add: bench_def)
qed

lemma bench_less:
  "r < 16 \<Longrightarrow> d < 8 \<Longrightarrow> m < 32 \<Longrightarrow>
     (g < measured (captures (synthetic bench) k (r, d, m))) =
     (unat g < (600 + 100 * d + 3 * m) * (r + 1))"
  using synthetic_less [of bench "(r, d, m)" g k] bench_bound [of r d m] by (simp add: bench_def)

lemma bench_range_scan:
  "\<exists>p s1. range_scan (synthetic bench) 977 s = Some (p, s1) \<and> rsel s1 = 0 \<and>
     applied s1 = applied s @ [(0, 3, 0), (1, 3, 0)]"
  using range_scan_break [OF synthetic_complete, of 1 977 bench s]
  by (simp add: bench_less bench_measured)

theorem step_scan_decides_witness:
  "(\<exists>s'. searchGoal (synthetic bench) 977 (power_up erased) = Some (0, s')) \<and>
   \<not> (\<exists>s'. searchGoal (synthetic bench) 977 (power_up erased) = Some (1, s'))"
proof -
  from bench_range_scan [of "power_up erased"] obtain p s1
    where rs: "range_scan (synthetic bench) 977 (power_up erased) = Some (p, s1)"
      and s1: "rsel s1 = 0" "applied s1 = applied (power_up erased) @ [(0, 3, 0), (1, 3, 0)]"
    by blast
  have a: "\<not> (977 :: 16 word) <
      measured (captures (synthetic bench) (length (applied s1) + 0) (rsel s1, 0, 0))"
    by (simp add: s1 bench_less)
  have b: "(977 :: 16 word) <
      measured (captures (synthetic bench) (length (applied s1) + 4) (rsel s1, 4, 0))"
    by (simp add: s1 bench_less)
  from step_scan_decides [OF synthetic_complete rs] a b show ?thesis
    unfolding Let_def by (metis add.right_neutral numeral_less_iff semiring_norm(76,78))
qed

text \<open>
  Claim C3, as amended. Every session completing, let \<open>Mm m\<close> be the measurement of
  the session that the modulation scan runs for the modulation \<open>m\<close>. The comparison
  of the special case takes place exactly when the modulation left by the scan and
  its choice between \<open>mod\<close> and \<open>mod-1\<close> is 31. That is so when the scan ran
  through 0..31 with no measurement above the goal, and also when it stopped at the
  modulation 31, the first above the goal, and the choice kept 31. When it stopped
  below 31, or at 31 with the choice going to 30, the state the scan left is final.
  Where the comparison takes place, \<open>m0diff\<close> below the last measurement minus the
  goal (as unsigned 16-bit values) moves to the next step with modulation 0.
\<close>

theorem special_case_at_31:
  assumes c: "complete env"
  shows "let Mm = (\<lambda>m. measured (captures env (length (applied s) + m) (rsel s, dco s, m))) in
    ((\<forall>m < 32. \<not> goal < Mm m) \<longrightarrow>
       (\<exists>s4. modulation_scan env goal prev s = Some s4 \<and> modv s4 = 31 \<and>
          AveragedDifference s4 = Mm 31 \<and>
          special_case goal m0diff s4 =
            (if m0diff < Mm 31 - goal then s4\<lparr>dco := dco s + 1, modv := 0\<rparr> else s4))) \<and>
    (\<forall>n < 32. goal < Mm n \<and> (\<forall>i < n. \<not> goal < Mm i) \<longrightarrow>
       (\<exists>s4. modulation_scan env goal prev s = Some s4 \<and> AveragedDifference s4 = Mm n \<and>
          modv s4 = (if n \<noteq> 0 \<and> unat goal - unat (Mm (n - 1)) < unat (Mm n) - unat goal
                     then n - 1 else n) \<and>
          (modv s4 = 31) =
            (n = 31 \<and> \<not> unat goal - unat (Mm 30) < unat (Mm 31) - unat goal) \<and>
          special_case goal m0diff s4 =
            (if modv s4 = 31 \<and> m0diff < Mm 31 - goal
             then s4\<lparr>dco := dco s + 1, modv := 0\<rparr> else s4)))"
proof -
  define Mm where "Mm = (\<lambda>m. measured (captures env (length (applied s) + m) (rsel s, dco s, m)))"
  have exh: "\<exists>s4. modulation_scan env goal prev s = Some s4 \<and> modv s4 = 31 \<and>
          AveragedDifference s4 = Mm 31 \<and>
          special_case goal m0diff s4 =
            (if m0diff < Mm 31 - goal then s4\<lparr>dco := dco s + 1, modv := 0\<rparr> else s4)"
    if "\<forall>m < 32. \<not> goal < Mm m"
    using modulation_scan_exhaust [OF c, of goal s prev] that
    by (simp add: Mm_def special_case_def del: upt_Suc)
  have brk: "\<exists>s4. modulation_scan env goal prev s = Some s4 \<and> AveragedDifference s4 = Mm n \<and>
          modv s4 = (if n \<noteq> 0 \<and> unat goal - unat (Mm (n - 1)) < unat (Mm n) - unat goal
                     then n - 1 else n) \<and>
          (modv s4 = 31) =
            (n = 31 \<and> \<not> unat goal - unat (Mm 30) < unat (Mm 31) - unat goal) \<and>
          special_case goal m0diff s4 =
            (if modv s4 = 31 \<and> m0diff < Mm 31 - goal
             then s4\<lparr>dco := dco s + 1, modv := 0\<rparr> else s4)"
    if "n < 32" "goal < Mm n" "\<forall>i < n. \<not> goal < Mm i" for n
  proof -
    define m' where "m' = (if n \<noteq> 0 \<and> unat goal - unat (Mm (n - 1)) < unat (Mm n) - unat goal
                     then n - 1 else n)"
    define s4 where "s4 = (session env (length (applied s) + n) (rsel s, dco s, n) s)
      \<lparr>modv := m', applied := applied s @ map (\<lambda>m. (rsel s, dco s, m)) [0..<Suc n]\<rparr>"
    have ms: "modulation_scan env goal prev s = Some s4"
      unfolding s4_def m'_def Mm_def
      by (rule modulation_scan_break [OF c that(1) that(2,3) [unfolded Mm_def]])
    have f1: "AveragedDifference s4 = Mm n" by (simp add: s4_def Mm_def)
    have f2: "modv s4 = m'" "dco s4 = dco s" by (simp_all add: s4_def)
    have f3: "(m' = 31) = (n = 31 \<and> \<not> unat goal - unat (Mm 30) < unat (Mm 31) - unat goal)"
    proof (cases "n = 31")
      case True
      then show ?thesis by (simp add: m'_def)
    next
      case False
      have "m' \<le> n" by (simp add: m'_def)
      with False have "m' < 31" using that(1) by simp
      then show ?thesis using False by simp
    qed
    have f4: "special_case goal m0diff s4 =
            (if m' = 31 \<and> m0diff < Mm 31 - goal
             then s4\<lparr>dco := dco s + 1, modv := 0\<rparr> else s4)"
    proof (cases "m' = 31")
      case True
      then have "n = 31" using f3 by simp
      then show ?thesis using True f1 f2 by (simp add: special_case_def)
    next
      case False
      then show ?thesis using f2 by (simp add: special_case_def)
    qed
    have "modulation_scan env goal prev s = Some s4 \<and> AveragedDifference s4 = Mm n \<and>
          modv s4 = m' \<and>
          (modv s4 = 31) =
            (n = 31 \<and> \<not> unat goal - unat (Mm 30) < unat (Mm 31) - unat goal) \<and>
          special_case goal m0diff s4 =
            (if modv s4 = 31 \<and> m0diff < Mm 31 - goal
             then s4\<lparr>dco := dco s + 1, modv := 0\<rparr> else s4)"
      using ms f1 f2 f3 f4 by simp
    then show ?thesis
      unfolding m'_def by (rule exI)
  qed
  show ?thesis
    unfolding Let_def Mm_def [symmetric] using exh brk by blast
qed

lemma jitter_less:
  "(g < measured (captures (synthetic jitter) k c)) = (unat g < jitter c)"
  by (rule synthetic_less) (simp add: jitter_def)

lemma jitter_measured:
  "measured (captures (synthetic jitter) k c) = of_nat (jitter c)"
  by (rule synthetic_measured) (simp add: jitter_def)

text \<open>
  Claim C3 as stated fails. On the oscillator \<open>jitter\<close> and the goal 977, from the
  reset state, \<open>searchGoal\<close> runs the modulation scan at step 0 through the
  modulations 0..31; the session for the modulation 31 (session number 34) is the first
  that measures above the goal, so the scan stops there and is not exhausted, and the
  choice keeps 31. The comparison of the special case is made all the same and moves
  to step 1, modulation 0, which is the configuration of the final session.
\<close>

theorem fallback_after_overshoot:
  "977 < measured (captures (synthetic jitter) 34 (0, 0, 31)) \<and>
   (\<exists>s'. searchGoal (synthetic jitter) 977 (power_up erased) = Some (0, s') \<and>
      dco s' = 1 \<and> modv s' = 0 \<and>
      applied s' = [(0, 3, 0), (0, 0, 0), (0, 1, 0)] @ map (\<lambda>m. (0, 0, m)) [0..<32] @ [(0, 1, 0)])"
proof -
  let ?env = "synthetic jitter"
  note c = synthetic_complete [of jitter]
  have over: "977 < measured (captures ?env 34 (0, 0, 31))"
    by (simp add: jitter_less jitter_def)
  have "\<exists>p s1. range_scan ?env 977 (power_up erased) = Some (p, s1) \<and>
      rsel s1 = 0 \<and> applied s1 = [(0, 3, 0)]"
    using range_scan_break [OF c, of 0 977 "power_up erased"]
    by (simp add: jitter_less jitter_def power_up_def)
  then obtain p s1 where rs: "range_scan ?env 977 (power_up erased) = Some (p, s1)"
    and s1: "rsel s1 = 0" "applied s1 = [(0, 3, 0)]"
    by blast
  let ?s3 = "(session ?env (length (applied s1) + 1) (rsel s1, 1, 0) s1)
          \<lparr>applied := applied s1 @ map (\<lambda>i. (rsel s1, i, 0)) [0..<Suc 1], dco := 1 - 1\<rparr>"
  have s3: "rsel ?s3 = 0" "dco ?s3 = 0" "length (applied ?s3) = 3"
    "applied ?s3 = [(0, 3, 0), (0, 0, 0), (0, 1, 0)]"
    by (simp_all add: s1)
  have b: "\<forall>i < 31. \<not> 977 < measured (captures ?env (length (applied ?s3) + i) (rsel ?s3, dco ?s3, i))"
    unfolding s3 by (simp add: jitter_less jitter_def)
  have o: "977 < measured (captures ?env (length (applied ?s3) + 31) (rsel ?s3, dco ?s3, 31))"
    unfolding s3 by (simp add: jitter_less jitter_def)
  have "\<exists>s4. modulation_scan ?env 977 p ?s3 = Some s4 \<and>
      modv s4 = 31 \<and> dco s4 = 0 \<and> rsel s4 = 0 \<and> AveragedDifference s4 = 979 \<and>
      applied s4 = [(0, 3, 0), (0, 0, 0), (0, 1, 0)] @ map (\<lambda>m. (0, 0, m)) [0..<32]"
    using modulation_scan_break [OF c _ o b, of p] unfolding s3
    by (simp add: s1 jitter_measured jitter_def del: upt_Suc)
  then obtain s4 where ms: "modulation_scan ?env 977 p ?s3 = Some s4"
    and s4: "modv s4 = 31" "dco s4 = 0" "rsel s4 = 0" "AveragedDifference s4 = 979"
      "applied s4 = [(0, 3, 0), (0, 0, 0), (0, 1, 0)] @ map (\<lambda>m. (0, 0, m)) [0..<32]"
    by blast
  define s5 where "s5 = special_case 977
       (measured (captures ?env (length (applied s1) + 1) (rsel s1, 1, 0)) - 977) s4"
  have s5: "dco s5 = 1" "modv s5 = 0" "rsel s5 = 0" "applied s5 = applied s4"
    unfolding s5_def by (simp_all add: special_case_def s4 s1 jitter_measured jitter_def)
  have "searchGoal ?env 977 (power_up erased) =
    Some (0, (session ?env (length (applied s5)) (rsel s5, dco s5, modv s5) s5)
      \<lparr>applied := applied s5 @ [(rsel s5, dco s5, modv s5)]\<rparr>)"
    by (rule searchGoal_found [OF c rs _ _ _ _ ms s5_def])
      (simp_all add: s1 jitter_less jitter_def)
  then show ?thesis
    using over by (simp add: s5 s4 del: upt_Suc)
qed

theorem special_case_at_31_witness:
  "\<exists>s4. modulation_scan (synthetic jitter) 977 0 (power_up erased) = Some s4 \<and>
     modv s4 = 31 \<and> AveragedDifference s4 = 979 \<and>
     special_case 977 1 s4 = s4\<lparr>dco := 1, modv := 0\<rparr>"
proof -
  have a: "length (applied (power_up erased)) = 0" "rsel (power_up erased) = 0"
    "dco (power_up erased) = 0"
    by (simp_all add: power_up_def)
  have m: "measured (captures (synthetic jitter) 31 (0, 0, 31)) = 979"
    "measured (captures (synthetic jitter) 30 (0, 0, 30)) = 974"
    by (simp_all add: jitter_measured jitter_def)
  have b: "\<forall>i < 31. \<not> 977 < measured (captures (synthetic jitter) i (0, 0, i))"
    by (simp add: jitter_less jitter_def)
  from special_case_at_31 [where env = "synthetic jitter" and s = "power_up erased"
      and goal = 977 and prev = 0 and ?m0diff = 1, OF synthetic_complete]
  show ?thesis
    unfolding Let_def a
    apply (elim conjE)
    apply (drule spec [of _ 31])
    using b
    apply (simp add: m)
    apply (elim exE conjE)
    apply (rule exI)
    apply (intro conjI)
       apply assumption
      apply assumption
     apply assumption
    apply simp
    done
qed

section \<open>How failure is reported\<close>

lemma searchGoal_result: "searchGoal env goal s = Some (r, s') \<Longrightarrow> r = 0 \<or> r = 1"
  by (auto simp: searchGoal_def Let_def split: option.splits if_splits prod.splits)

lemma searchGoal_returns:
  assumes c: "complete env"
  shows "\<exists>r s'. searchGoal env goal s = Some (r, s')"
proof -
  from range_scan_returns [OF c, of goal s] obtain p s1
    where rs: "range_scan env goal s = Some (p, s1)" by blast
  let ?P = "\<lambda>d. goal < measured (captures env (length (applied s1) + d) (rsel s1, d, 0))"
  from first_or_none [of 8 ?P] show ?thesis
  proof
    assume "\<forall>d < 8. \<not> ?P d"
    from searchGoal_exhausted [OF c rs this] show ?thesis by blast
  next
    assume "\<exists>d < 8. ?P d \<and> (\<forall>i < d. \<not> ?P i)"
    then obtain d where d: "d < 8" "?P d" "\<forall>i < d. \<not> ?P i" by blast
    show ?thesis
    proof (cases "d = 0")
      case True
      with d(2) have "goal < measured (captures env (length (applied s1)) (rsel s1, 0, 0))"
        by simp
      from searchGoal_at_zero [OF c rs this] show ?thesis by blast
    next
      case False
      then have "0 < d" by simp
      from searchGoal_found_shape [OF c rs this d] show ?thesis by blast
    qed
  qed
qed

text \<open>
  Claim C8 as stated fails for the store: with the factory calibration for 1 MHz blank
  (here the erased information memory), \<open>flashWrite\<close> does not return to
  \<open>main\<close> but ends in the error loop with code 4.
\<close>

theorem flashWrite_locks_itself:
  "flashWrite release (power_up erased) =
     Inl (ErrorLock 4 ((power_up erased)\<lparr>DCOCTL := 0xFF, BCSCTL1 := 0xFF\<rparr>))"
  by (simp add: flashWrite_def errorLock_def Let_def CALBC1_1MHZ_def CALDCO_1MHZ_def
      power_up_def erased_def)

text \<open>
  Claim C8, as amended. \<open>searchGoal\<close> reports to its caller: whenever it returns,
  it returns 0 or 1, it returns whenever every session completes, and it never
  enters the error loop. \<open>flashWrite\<close> returns nothing: it completes when the
  factory calibration for 1 MHz is present, and enters the error loop with code 4
  itself when it is blank.
\<close>

theorem failure_reporting:
  "(\<forall>r s'. searchGoal env goal s = Some (r, s') \<longrightarrow> r = 0 \<or> r = 1) \<and>
   (complete env \<longrightarrow> (\<exists>r s'. searchGoal env goal s = Some (r, s'))) \<and>
   flashWrite b s =
     (if CALBC1_1MHZ s = 0xFF \<or> CALDCO_1MHZ s = 0xFF
      then Inl (ErrorLock 4 (s\<lparr>DCOCTL := CALDCO_1MHZ s, BCSCTL1 := CALBC1_1MHZ s\<rparr>))
      else Inr (last (run (flashWrite_body b) s)))"
proof (intro conjI allI impI)
  fix r s'
  assume "searchGoal env goal s = Some (r, s')"
  then show "r = 0 \<or> r = 1" by (rule searchGoal_result)
next
  assume "complete env"
  then show "\<exists>r s'. searchGoal env goal s = Some (r, s')" by (rule searchGoal_returns)
next
  show "flashWrite b s =
     (if CALBC1_1MHZ s = 0xFF \<or> CALDCO_1MHZ s = 0xFF
      then Inl (ErrorLock 4 (s\<lparr>DCOCTL := CALDCO_1MHZ s, BCSCTL1 := CALBC1_1MHZ s\<rparr>))
      else Inr (last (run (flashWrite_body b) s)))"
    by (simp add: flashWrite_def errorLock_def Let_def CALBC1_1MHZ_def CALDCO_1MHZ_def)
qed

theorem failure_reporting_witness:
  "(\<exists>r s'. searchGoal (synthetic bench) 977 (power_up factory) = Some (r, s') \<and> (r = 0 \<or> r = 1)) \<and>
   (\<exists>s'. flashWrite release (power_up factory) = Inr s')"
proof -
  have f: "CALBC1_1MHZ (power_up factory) \<noteq> 0xFF" "CALDCO_1MHZ (power_up factory) \<noteq> 0xFF"
    by (simp_all add: CALBC1_1MHZ_def CALDCO_1MHZ_def power_up_def factory_def)
  from failure_reporting [of "synthetic bench" 977 "power_up factory" release]
    synthetic_complete [of bench] f
  show ?thesis by auto
qed

section \<open>The retries in main\<close>

lemma bench_search:
  "\<exists>s'. searchGoal (synthetic bench) 977 s = Some (0, s') \<and> AveragedDifference s' = 978 \<and>
     rsel s' = 0 \<and> dco s' = 3 \<and> modv s' = 26"
proof -
  let ?env = "synthetic bench"
  note c = synthetic_complete [of bench]
  from bench_range_scan [of s] obtain p s1
    where rs: "range_scan ?env 977 s = Some (p, s1)"
      and s1: "rsel s1 = 0" "applied s1 = applied s @ [(0, 3, 0), (1, 3, 0)]"
    by blast
  let ?s3 = "(session ?env (length (applied s1) + 4) (rsel s1, 4, 0) s1)
          \<lparr>applied := applied s1 @ map (\<lambda>i. (rsel s1, i, 0)) [0..<Suc 4], dco := 4 - 1\<rparr>"
  have s3: "rsel ?s3 = 0" "dco ?s3 = 3"
    by (simp_all add: s1)
  have b: "\<forall>i < 26. \<not> 977 < measured (captures ?env (length (applied ?s3) + i) (rsel ?s3, dco ?s3, i))"
    unfolding s3 by (simp add: bench_less)
  have o: "977 < measured (captures ?env (length (applied ?s3) + 26) (rsel ?s3, dco ?s3, 26))"
    unfolding s3 by (simp add: bench_less)
  have "\<exists>s4. modulation_scan ?env 977 p ?s3 = Some s4 \<and>
      modv s4 = 26 \<and> dco s4 = 3 \<and> rsel s4 = 0"
    using modulation_scan_break [OF c _ o b, of p] unfolding s3
    by (simp add: s1 bench_measured del: upt_Suc)
  then obtain s4 where ms: "modulation_scan ?env 977 p ?s3 = Some s4"
    and s4: "modv s4 = 26" "dco s4 = 3" "rsel s4 = 0"
    by blast
  define s5 where "s5 = special_case 977
       (measured (captures ?env (length (applied s1) + 4) (rsel s1, 4, 0)) - 977) s4"
  have s5: "dco s5 = 3" "modv s5 = 26" "rsel s5 = 0"
    unfolding s5_def by (simp_all add: special_case_def s4)
  have "searchGoal ?env 977 s =
    Some (0, (session ?env (length (applied s5)) (rsel s5, dco s5, modv s5) s5)
      \<lparr>applied := applied s5 @ [(rsel s5, dco s5, modv s5)]\<rparr>)"
    by (rule searchGoal_found [OF c rs _ _ _ _ ms s5_def])
      (simp_all add: s1 bench_less)
  then show ?thesis
    by (simp add: s5 bench_measured)
qed

lemma coarse_less:
  "(g < measured (captures (synthetic coarse) k c)) = (unat g < coarse c)"
  by (rule synthetic_less) (simp add: coarse_def)

lemma coarse_measured:
  "measured (captures (synthetic coarse) k c) = of_nat (coarse c)"
  by (rule synthetic_measured) (simp add: coarse_def)

lemma coarse_search:
  "\<exists>s'. searchGoal (synthetic coarse) 977 s = Some (0, s') \<and> AveragedDifference s' = 1100 \<and>
     rsel s' = 0 \<and> dco s' = 1 \<and> modv s' = 0"
proof -
  let ?env = "synthetic coarse"
  note c = synthetic_complete [of coarse]
  have "\<exists>p s1. range_scan ?env 977 s = Some (p, s1) \<and> rsel s1 = 0"
    using range_scan_break [OF c, of 0 977 s]
    by (simp add: coarse_less coarse_def)
  then obtain p s1 where rs: "range_scan ?env 977 s = Some (p, s1)"
    and s1: "rsel s1 = 0"
    by blast
  let ?s3 = "(session ?env (length (applied s1) + 1) (rsel s1, 1, 0) s1)
          \<lparr>applied := applied s1 @ map (\<lambda>i. (rsel s1, i, 0)) [0..<Suc 1], dco := 1 - 1\<rparr>"
  have s3: "rsel ?s3 = 0" "dco ?s3 = 0"
    by (simp_all add: s1)
  have b: "\<forall>i < 32. \<not> 977 < measured (captures ?env (length (applied ?s3) + i) (rsel ?s3, dco ?s3, i))"
    unfolding s3 by (simp add: coarse_less coarse_def)
  have "\<exists>s4. modulation_scan ?env 977 p ?s3 = Some s4 \<and>
      modv s4 = 31 \<and> dco s4 = 0 \<and> rsel s4 = 0 \<and> AveragedDifference s4 = 800"
    using modulation_scan_exhaust [OF c b, of p] unfolding s3
    by (simp add: s1 coarse_measured coarse_def del: upt_Suc)
  then obtain s4 where ms: "modulation_scan ?env 977 p ?s3 = Some s4"
    and s4: "modv s4 = 31" "dco s4 = 0" "rsel s4 = 0" "AveragedDifference s4 = 800"
    by blast
  define s5 where "s5 = special_case 977
       (measured (captures ?env (length (applied s1) + 1) (rsel s1, 1, 0)) - 977) s4"
  have s5: "dco s5 = 1" "modv s5 = 0" "rsel s5 = 0"
    unfolding s5_def by (simp_all add: special_case_def s4 s1 coarse_measured coarse_def)
  have "searchGoal ?env 977 s =
    Some (0, (session ?env (length (applied s5)) (rsel s5, dco s5, modv s5) s5)
      \<lparr>applied := applied s5 @ [(rsel s5, dco s5, modv s5)]\<rparr>)"
    by (rule searchGoal_found [OF c rs _ _ _ _ ms s5_def])
      (simp_all add: s1 coarse_less coarse_def)
  then show ?thesis
    by (simp add: s5 coarse_measured coarse_def)
qed

lemma coarse_missed: "missed (synthetic coarse) 977 n s"
proof (induction n arbitrary: s)
  case 0
  from coarse_search [of s] show ?case
    by (auto simp: missed_def percent_error_def in_tolerance_def MAX_ERROR_def
        signed_divide_int_def)
next
  case (Suc n)
  from coarse_search [of s] obtain s1
    where "searchGoal (synthetic coarse) 977 s = Some (0, s1)" by blast
  from missed_Suc [OF this] Suc.IH show ?case by simp
qed

lemma bench_hit: "hit (synthetic bench) 977 0 s"
  using bench_search [of s]
  by (auto simp: hit_def percent_error_def in_tolerance_def MAX_ERROR_def
      signed_divide_int_def)

text \<open>
  The loops of \<open>main\<close> in terms of the frequency error as line 595 computes it
  (\<open>missed\<close> and \<open>hit\<close>). For the target \<open>i\<close>, the crystal oscillator not
  faulting, the inner loop is left after at most MAX_CYCLES = 10 searches. When each
  of the ten searches returns 0 with a computed error outside the tolerance,
  \<open>main\<close> ends in the error loop with code 5, in the state the tenth search left.
  When the search number \<open>n < 10\<close> (counted from 0) is the first with a computed
  error within the tolerance, the loop is left with \<open>j = n\<close> in the state that
  search left, with no further search, and \<open>main\<close> stores the calibration and
  goes on to the next target.
\<close>

lemma retries_bounded:
  assumes i: "i < NFREQ" and ok: "\<not> lfxt1of_scan env i"
  shows "(\<forall>j t. cycles env (GoalN ! i) 0 s = Inr (j, t) \<longrightarrow> j \<le> MAX_CYCLES) \<and>
    ((\<forall>m < MAX_CYCLES. missed env (GoalN ! i) m s) \<longrightarrow>
       (\<exists>t. attempt env (GoalN ! i) (MAX_CYCLES - 1) s = Some (0, t) \<and>
          cycles env (GoalN ! i) 0 s = Inr (MAX_CYCLES, t) \<and>
          frequencies env i s =
            Inl (ErrorLock 5 (t\<lparr>DCOCTL := CALDCO_1MHZ t, BCSCTL1 := CALBC1_1MHZ t\<rparr>)))) \<and>
    (\<forall>n < MAX_CYCLES. hit env (GoalN ! i) n s \<and> (\<forall>m < n. missed env (GoalN ! i) m s) \<longrightarrow>
       (\<exists>t. attempt env (GoalN ! i) n s = Some (0, t) \<and>
          cycles env (GoalN ! i) 0 s = Inr (n, t) \<and>
          frequencies env i s =
            frequencies env (Suc i)
              (t\<lparr>CalDCO := (CalDCO t)[i := DCOCTL t], CalBC1 := (CalBC1 t)[i := BCSCTL1 t]\<rparr>)))"
proof (intro conjI allI impI)
  fix j t
  assume "cycles env (GoalN ! i) 0 s = Inr (j, t)"
  from cycles_bound [OF this] show "j \<le> MAX_CYCLES" by simp
next
  assume all: "\<forall>m < MAX_CYCLES. missed env (GoalN ! i) m s"
  have "0 + Suc 9 = MAX_CYCLES" by (simp add: MAX_CYCLES_def)
  from cycles_missed [OF this, of env "GoalN ! i" s] all obtain t
    where t: "attempt env (GoalN ! i) 9 s = Some (0, t)"
      "cycles env (GoalN ! i) 0 s = Inr (MAX_CYCLES, t)"
    by (auto simp: MAX_CYCLES_def)
  have "frequencies env i s =
      Inl (ErrorLock 5 (t\<lparr>DCOCTL := CALDCO_1MHZ t, BCSCTL1 := CALBC1_1MHZ t\<rparr>))"
    using i ok t(2)
    by (subst frequencies.simps) (simp add: errorLock_def Let_def CALBC1_1MHZ_def)
  with t show "\<exists>t. attempt env (GoalN ! i) (MAX_CYCLES - 1) s = Some (0, t) \<and>
          cycles env (GoalN ! i) 0 s = Inr (MAX_CYCLES, t) \<and>
          frequencies env i s =
            Inl (ErrorLock 5 (t\<lparr>DCOCTL := CALDCO_1MHZ t, BCSCTL1 := CALBC1_1MHZ t\<rparr>))"
    by (simp add: MAX_CYCLES_def)
next
  fix n
  assume n: "n < MAX_CYCLES"
    and h: "hit env (GoalN ! i) n s \<and> (\<forall>m < n. missed env (GoalN ! i) m s)"
  from n have "0 + n < MAX_CYCLES" by simp
  from cycles_hit [OF this, of env "GoalN ! i" s] h obtain t
    where t: "attempt env (GoalN ! i) n s = Some (0, t)"
      "cycles env (GoalN ! i) 0 s = Inr (n, t)"
    by auto
  have "frequencies env i s =
      frequencies env (Suc i)
        (t\<lparr>CalDCO := (CalDCO t)[i := DCOCTL t], CalBC1 := (CalBC1 t)[i := BCSCTL1 t]\<rparr>)"
    using i ok t(2) n
    by (subst frequencies.simps) (simp add: Let_def)
  with t show "\<exists>t. attempt env (GoalN ! i) n s = Some (0, t) \<and>
          cycles env (GoalN ! i) 0 s = Inr (n, t) \<and>
          frequencies env i s =
            frequencies env (Suc i)
              (t\<lparr>CalDCO := (CalDCO t)[i := DCOCTL t], CalBC1 := (CalBC1 t)[i := BCSCTL1 t]\<rparr>)"
    by simp
qed

lemma retries_bounded_on_examples:
  "(\<exists>t. attempt (synthetic coarse) 977 9 (power_up erased) = Some (0, t) \<and>
      frequencies (synthetic coarse) 0 (power_up erased) =
        Inl (ErrorLock 5 (t\<lparr>DCOCTL := CALDCO_1MHZ t, BCSCTL1 := CALBC1_1MHZ t\<rparr>))) \<and>
   (\<exists>t. attempt (synthetic bench) 977 0 (power_up erased) = Some (0, t) \<and>
      cycles (synthetic bench) 977 0 (power_up erased) = Inr (0, t))"
proof -
  have g: "GoalN ! 0 = 977" by (simp add: GoalN_def)
  have i: "0 < NFREQ" by (simp add: NFREQ_def)
  have o: "\<not> lfxt1of_scan (synthetic f) 0" for f by (simp add: synthetic_def)
  have m: "0 < MAX_CYCLES" by (simp add: MAX_CYCLES_def)
  from retries_bounded [OF i o, of coarse "power_up erased"] coarse_missed
  have a: "\<exists>t. attempt (synthetic coarse) 977 9 (power_up erased) = Some (0, t) \<and>
      frequencies (synthetic coarse) 0 (power_up erased) =
        Inl (ErrorLock 5 (t\<lparr>DCOCTL := CALDCO_1MHZ t, BCSCTL1 := CALBC1_1MHZ t\<rparr>))"
    unfolding g by (simp add: MAX_CYCLES_def) blast
  from retries_bounded [OF i o, of bench "power_up erased"]
  have "hit (synthetic bench) 977 0 (power_up erased) \<longrightarrow>
     (\<exists>t. attempt (synthetic bench) 977 0 (power_up erased) = Some (0, t) \<and>
      cycles (synthetic bench) 977 0 (power_up erased) = Inr (0, t))"
    unfolding g using m by (metis not_less_zero)
  with bench_hit have b: "\<exists>t. attempt (synthetic bench) 977 0 (power_up erased) = Some (0, t) \<and>
      cycles (synthetic bench) 977 0 (power_up erased) = Inr (0, t)"
    by blast
  from a b show ?thesis by blast
qed






end
